theory Spec2Isabelle
  imports Main "HOL-Library.AList" "HOL-Library.Sublist"
begin

section \<open>The in-memory event bus of core/event\<close>

text \<open>
  A shallow embedding of \<^verbatim>\<open>event/memory.go\<close>, \<^verbatim>\<open>event/options.go\<close>,
  \<^verbatim>\<open>event/typed.go\<close> and the header helpers of the events package
  (\<^verbatim>\<open>ContextWithHeaders\<close>, \<^verbatim>\<open>HeadersFrom\<close>).

  Conventions of the embedding.
  \<^item> Go's \<^verbatim>\<open>int\<close> and \<^verbatim>\<open>int64\<close> are HOL's \<open>int\<close>. The only arithmetic of the
    code is the attempt counter, which runs from 1 to \<open>retries + 1\<close>, and the
    subscription id \<open>nextID + 1\<close>. They stay below the machine bound unless the
    retry budget is the largest \<^verbatim>\<open>int\<close> or a topic has had that many subscriptions;
    the wrap-around at the bound is not modelled.
  \<^item> A Go map with string keys is an association list with one entry per key; a map
    value is a reference, so header maps live in a store (a list of maps addressed by
    position) and a \<^verbatim>\<open>map[string]string\<close> variable is an address or nil.
  \<^item> Handlers and the error hook are Go functions with side effects: they are state
    transformers on a world that holds the store of maps and the state of the program
    around the bus.
  \<^item> A panic is a value of the result type.
  \<^item> Goroutines are interleaved by an explicit schedule: a list of actions, each one
    atomic step of one goroutine.
\<close>

subsection \<open>Errors, the store of header maps, contexts\<close>

datatype error = ErrClosed | ErrNilHandler | Canceled | DeadlineExceeded | HandlerError string

type_synonym hmap = "(string \<times> string) list"
type_synonym addr = nat
type_synonym store = "hmap list"

record 'u world =
  hp :: store
  user :: 'u

text \<open>\<^verbatim>\<open>len(m)\<close> of a map variable: 0 for nil.\<close>

definition len_map :: "store \<Rightarrow> addr option \<Rightarrow> nat" where
  "len_map h m = (case m of None \<Rightarrow> 0 | Some a \<Rightarrow> length (h ! a))"

text \<open>\<^verbatim>\<open>make(map[string]string, n)\<close>: a new empty map at a new address.\<close>

definition make_map :: "store \<Rightarrow> addr \<times> store" where
  "make_map h = (length h, h @ [[]])"

text \<open>\<^verbatim>\<open>for k, v := range src { dst[k] = v }\<close>, the entries of the source already read.\<close>

fun copy_entries :: "hmap \<Rightarrow> hmap \<Rightarrow> hmap" where
  "copy_entries [] dst = dst"
| "copy_entries ((k, v) # src) dst = copy_entries src (AList.update k v dst)"

text \<open>
  The contexts of Go's standard library, as far as the bus uses them: the background
  context, a context with a cancellation scope (WithCancel, WithTimeout, WithDeadline;
  the scope is named by a number) and a context carrying a value under the package's
  private \<^verbatim>\<open>metadataKey\<close> (the address of a header map). Whether a scope is done,
  and with which error, is the environment's state \<open>env\<close>.
\<close>

datatype Context = Background | WithCancel Context nat | WithValue Context addr

type_synonym env = "nat \<Rightarrow> error option"

fun ctx_Err :: "env \<Rightarrow> Context \<Rightarrow> error option" where
  "ctx_Err en Background = None"
| "ctx_Err en (WithCancel p i) = (case ctx_Err en p of Some e \<Rightarrow> Some e | None \<Rightarrow> en i)"
| "ctx_Err en (WithValue p a) = ctx_Err en p"


definition ContextWithHeaders :: "Context \<Rightarrow> addr option \<Rightarrow> store \<Rightarrow> Context \<times> store" where
  "ContextWithHeaders c headers h =
     (if len_map h headers = 0 then (c, h)
      else (case make_map h of (cp, h1) \<Rightarrow>
              (WithValue c cp, h1[cp := copy_entries (h1 ! the headers) (h1 ! cp)])))"


subsection \<open>Options (options.go)\<close>

record SubscribeConfig =
  Retries :: int

type_synonym SubscribeOption = "SubscribeConfig \<Rightarrow> SubscribeConfig"


record PublishConfig =
  Headers :: "addr option"
  Key :: string

type_synonym PublishOption = "PublishConfig \<Rightarrow> store \<Rightarrow> PublishConfig \<times> store"


definition WithKey :: "string \<Rightarrow> PublishOption" where
  "WithKey k c h = (c\<lparr>Key := k\<rparr>, h)"

type_synonym ('e, 'u) Handler = "Context \<Rightarrow> 'e \<Rightarrow> 'u world \<Rightarrow> error option \<times> 'u world"

type_synonym ('e, 'u) ErrorHook = "Context \<Rightarrow> string \<Rightarrow> 'e \<Rightarrow> error \<Rightarrow> 'u world \<Rightarrow> 'u world"

record ('e, 'u) BusConfig =
  BufferSize :: int
  WorkersPerTopic :: int
  OnError :: "('e, 'u) ErrorHook option"

type_synonym ('e, 'u) BusOption = "('e, 'u) BusConfig \<Rightarrow> ('e, 'u) BusConfig"

definition WithBuffer :: "int \<Rightarrow> ('e, 'u) BusOption" where
  "WithBuffer sz c = (if sz > 0 then c\<lparr>BufferSize := sz\<rparr> else c)"

definition WithWorkers :: "int \<Rightarrow> ('e, 'u) BusOption" where
  "WithWorkers n c = (if n > 0 then c\<lparr>WorkersPerTopic := n\<rparr> else c)"


subsection \<open>Typed handlers (typed.go)\<close>

text \<open>
  An event is a value of Go's \<^verbatim>\<open>any\<close>; the type assertion \<^verbatim>\<open>event.(T)\<close> is a partial
  projection from the events to the values of \<open>T\<close>, so the type parameter of
  \<^verbatim>\<open>AsHandler[T]\<close> is given as that projection.
\<close>

datatype any = AnyNil | AnyInt int | AnyString string | AnyBool bool

fun assert_int :: "any \<Rightarrow> int option" where
  "assert_int (AnyInt n) = Some n"
| "assert_int _ = None"

fun assert_string :: "any \<Rightarrow> string option" where
  "assert_string (AnyString s) = Some s"
| "assert_string _ = None"

type_synonym ('t, 'u) TypedHandler = "Context \<Rightarrow> 't \<Rightarrow> 'u world \<Rightarrow> error option \<times> 'u world"

definition AsHandler :: "('e \<Rightarrow> 't option) \<Rightarrow> ('t, 'u) TypedHandler \<Rightarrow> ('e, 'u) Handler" where
  "AsHandler assert h c ev w = (case assert ev of None \<Rightarrow> (None, w) | Some v \<Rightarrow> h c v w)"

subsection \<open>The bus, its topics and subscriptions (memory.go)\<close>

record ('e, 'u) subscription =
  handler :: "('e, 'u) Handler"
  config :: SubscribeConfig

record 'e item =
  ctx :: Context
  event :: 'e

text \<open>
  A worker goroutine is at one of the points of \<^verbatim>\<open>worker\<close>: at the receive of
  \<^verbatim>\<open>for item := range t.ch\<close>, holding an item before the snapshot, inside the loop
  over the snapshot with the subscriptions still to serve, or returned.
\<close>

datatype ('e, 'u) goroutine =
    Receiving
  | Snapshotting "'e item"
  | Dispatching "'e item" "('e, 'u) subscription list"
  | Exited

text \<open>
  A topic: the channel \<^verbatim>\<open>ch\<close> (its buffered items, oldest first, its capacity and
  whether it is closed), the fields \<^verbatim>\<open>workers\<close>, \<^verbatim>\<open>subs\<close> and \<^verbatim>\<open>nextID\<close>, and the
  worker goroutines that \<^verbatim>\<open>ensureTopic\<close> started for it.
\<close>

record ('e, 'u) topic =
  ch :: "'e item list"
  ch_cap :: int
  ch_closed :: bool
  workers :: int
  subs :: "(int \<times> ('e, 'u) subscription) list"
  nextID :: int
  goroutines :: "('e, 'u) goroutine list"

record ('e, 'u) memoryBus =
  cfg :: "('e, 'u) BusConfig"
  topics :: "(string \<times> ('e, 'u) topic) list"
  closed :: bool

record memorySub =
  sub_topic :: string
  sub_id :: int

datatype 'a res = Ret 'a | Panic

definition NewMemoryBus :: "('e, 'u) BusOption list \<Rightarrow> ('e, 'u) memoryBus" where
  "NewMemoryBus opts =
     \<lparr>cfg = foldl (\<lambda>c opt. opt c) \<lparr>BufferSize = 64, WorkersPerTopic = 1, OnError = None\<rparr> opts,
      topics = [], closed = False\<rparr>"

text \<open>
  \<^verbatim>\<open>ensureTopic\<close> returns nil on a closed bus, and the topic otherwise, made on first use:
  \<^verbatim>\<open>make(chan item, n)\<close> panics for a negative \<open>n\<close>, and the loop
  \<^verbatim>\<open>for i := 0; i < t.workers; i++\<close> starts one worker per round.
\<close>

definition ensureTopic ::
  "('e, 'u) memoryBus \<Rightarrow> string \<Rightarrow> (('e, 'u) topic \<times> ('e, 'u) memoryBus) option res" where
  "ensureTopic b name =
     (if closed b then Ret None
      else (case map_of (topics b) name of
              Some t \<Rightarrow> Ret (Some (t, b))
            | None \<Rightarrow>
                if BufferSize (cfg b) < 0 then Panic
                else (let t = \<lparr>ch = [], ch_cap = BufferSize (cfg b), ch_closed = False,
                                workers = WorkersPerTopic (cfg b), subs = [], nextID = 0,
                                goroutines = replicate (nat (WorkersPerTopic (cfg b))) Receiving\<rparr>
                      in Ret (Some (t, b\<lparr>topics := AList.update name t (topics b)\<rparr>)))))"

subsection \<open>The worker\<close>

text \<open>The loop \<^verbatim>\<open>for attempt := 1; attempt <= retries; attempt++\<close> with its \<^verbatim>\<open>lastErr\<close>.\<close>

function attempts ::
  "('e, 'u) Handler \<Rightarrow> 'e item \<Rightarrow> int \<Rightarrow> int \<Rightarrow> error option \<Rightarrow> 'u world \<Rightarrow> error option \<times> 'u world" where
  "attempts h it retries attempt lastErr w =
     (if attempt \<le> retries then
        (case h (ctx it) (event it) w of
           (Some err, w1) \<Rightarrow> attempts h it retries (attempt + 1) (Some err) w1
         | (None, w1) \<Rightarrow> (None, w1))
      else (lastErr, w))"
  by pat_completeness auto
termination
  by (relation "measure (\<lambda>(h, it, retries, attempt, lastErr, w). nat (retries + 1 - attempt))") auto

text \<open>The body of \<^verbatim>\<open>for _, sub := range subs\<close>: the retry budget, the attempts, the hook.\<close>

definition deliver ::
  "('e, 'u) BusConfig \<Rightarrow> string \<Rightarrow> 'e item \<Rightarrow> ('e, 'u) subscription \<Rightarrow> 'u world \<Rightarrow> 'u world" where
  "deliver c topicName it sub w =
     (let retries = Retries (config sub);
          retries = (if retries \<le> 0 then 1 else retries)
      in (case attempts (handler sub) it retries 1 None w of
            (lastErr, w1) \<Rightarrow>
              (case lastErr of
                 None \<Rightarrow> w1
               | Some err \<Rightarrow>
                   (case OnError c of
                      None \<Rightarrow> w1
                    | Some hook \<Rightarrow> hook (ctx it) topicName (event it) err w1))))"

text \<open>The whole loop over a snapshot, run by one worker without interruption.\<close>

fun dispatch ::
  "('e, 'u) BusConfig \<Rightarrow> string \<Rightarrow> 'e item \<Rightarrow> ('e, 'u) subscription list \<Rightarrow> 'u world \<Rightarrow> 'u world" where
  "dispatch c topicName it [] w = w"
| "dispatch c topicName it (sub # rest) w = dispatch c topicName it rest (deliver c topicName it sub w)"

text \<open>
  The snapshot copies the values of \<^verbatim>\<open>t.subs\<close> in the order the map iteration yields
  them, which Go leaves open: the schedule supplies the order as a permutation of the
  positions (any other list leaves the stored order).
\<close>

definition snapshot :: "nat list \<Rightarrow> ('e, 'u) topic \<Rightarrow> ('e, 'u) subscription list" where
  "snapshot order t =
     (let vs = map snd (subs t)
      in if sort order = [0..<length vs] then map (\<lambda>i. vs ! i) order else vs)"

text \<open>
  What an observer of one topic sees: an envelope accepted by the channel, an envelope
  received by a worker, a worker's snapshot for an envelope with the number of
  subscriptions in it, a subscription served for an envelope (its handler run with
  its retries, and the hook).
\<close>

datatype 'e label =
    Enq string "'e item"
  | Deq string "'e item"
  | Snap string "'e item" nat
  | Handle string "'e item"

text \<open>One step of a worker goroutine of topic \<open>name\<close>, from the point it is at.\<close>

fun worker_step ::
  "('e, 'u) BusConfig \<Rightarrow> string \<Rightarrow> nat list \<Rightarrow> ('e, 'u) topic \<Rightarrow> ('e, 'u) goroutine \<Rightarrow> 'u world \<Rightarrow>
   'e label list \<times> ('e, 'u) topic \<times> ('e, 'u) goroutine \<times> 'u world" where
  "worker_step c name order t Receiving w =
     (case ch t of
        x # q \<Rightarrow> ([Deq name x], t\<lparr>ch := q\<rparr>, Snapshotting x, w)
      | [] \<Rightarrow> if ch_closed t then ([], t, Exited, w) else ([], t, Receiving, w))"
| "worker_step c name order t (Snapshotting x) w =
     ([Snap name x (length (snapshot order t))], t, Dispatching x (snapshot order t), w)"
| "worker_step c name order t (Dispatching x []) w = ([], t, Receiving, w)"
| "worker_step c name order t (Dispatching x (sub # rest)) w =
     ([Handle name x], t, Dispatching x rest, deliver c name x sub w)"
| "worker_step c name order t Exited w = ([], t, Exited, w)"

subsection \<open>Subscribe, Unsubscribe, Publish, Close\<close>

definition Subscribe ::
  "('e, 'u) memoryBus \<Rightarrow> string \<Rightarrow> ('e, 'u) Handler option \<Rightarrow> SubscribeOption list \<Rightarrow>
   (error + memorySub) res \<times> ('e, 'u) memoryBus" where
  "Subscribe b topicName hdl opts =
     (case hdl of
        None \<Rightarrow> (Ret (Inl ErrNilHandler), b)
      | Some h \<Rightarrow>
          if closed b then (Ret (Inl ErrClosed), b)
          else (case ensureTopic b topicName of
                  Panic \<Rightarrow> (Panic, b)
                | Ret None \<Rightarrow> (Ret (Inl ErrClosed), b)
                | Ret (Some (t, b1)) \<Rightarrow>
                    (let sc = foldl (\<lambda>c opt. opt c) \<lparr>Retries = 1\<rparr> opts;
                         i = nextID t + 1;
                         t1 = t\<lparr>nextID := i,
                                subs := AList.update i \<lparr>handler = h, config = sc\<rparr> (subs t)\<rparr>
                     in (Ret (Inr \<lparr>sub_topic = topicName, sub_id = i\<rparr>),
                         b1\<lparr>topics := AList.update topicName t1 (topics b1)\<rparr>))))"

definition Unsubscribe :: "memorySub \<Rightarrow> ('e, 'u) memoryBus \<Rightarrow> ('e, 'u) memoryBus" where
  "Unsubscribe s b =
     (case map_of (topics b) (sub_topic s) of
        None \<Rightarrow> b
      | Some t \<Rightarrow>
          b\<lparr>topics := AList.update (sub_topic s) (t\<lparr>subs := AList.delete (sub_id s) (subs t)\<rparr>) (topics b)\<rparr>)"

text \<open>
  The part of \<^verbatim>\<open>Publish\<close> before its select: the nil scope, the closed check, the
  options, the headers, the topic. It yields an error, or the item and the topic.
\<close>

definition publish_prepare ::
  "('e, 'u) memoryBus \<Rightarrow> store \<Rightarrow> Context option \<Rightarrow> string \<Rightarrow> 'e \<Rightarrow> PublishOption list \<Rightarrow>
   (error + 'e item \<times> ('e, 'u) topic) res \<times> ('e, 'u) memoryBus \<times> store" where
  "publish_prepare b h ctx0 topicName ev opts =
     (let c = (case ctx0 of None \<Rightarrow> Background | Some c0 \<Rightarrow> c0)
      in if closed b then (Ret (Inl ErrClosed), b, h)
         else (case foldl (\<lambda>(pc, h0) opt. opt pc h0) (\<lparr>Headers = None, Key = []\<rparr>, h) opts of
                 (pc, h1) \<Rightarrow>
                   (case (if len_map h1 (Headers pc) > 0
                          then ContextWithHeaders c (Headers pc) h1 else (c, h1)) of
                      (c1, h2) \<Rightarrow>
                        (case ensureTopic b topicName of
                           Panic \<Rightarrow> (Panic, b, h2)
                         | Ret None \<Rightarrow> (Ret (Inl ErrClosed), b, h2)
                         | Ret (Some (t, b1)) \<Rightarrow> (Ret (Inr (\<lparr>ctx = c1, event = ev\<rparr>, t)), b1, h2)))))"

text \<open>
  The channel of a topic accepts a send when it is closed (the send panics), when its
  buffer has room, or when a worker waits at the receive and nothing is buffered (the
  only way into a channel of capacity 0: the item goes to that worker directly).
\<close>

definition can_send :: "('e, 'u) topic \<Rightarrow> bool" where
  "can_send t =
     (ch_closed t \<or> int (length (ch t)) < ch_cap t \<or> (ch t = [] \<and> Receiving \<in> set (goroutines t)))"

fun hand_off :: "'e item \<Rightarrow> ('e, 'u) goroutine list \<Rightarrow> ('e, 'u) goroutine list" where
  "hand_off x [] = []"
| "hand_off x (Receiving # gs) = Snapshotting x # gs"
| "hand_off x (g # gs) = g # hand_off x gs"

datatype ('e, 'u) selected =
    Buffered "('e, 'u) topic"
  | HandedOff "('e, 'u) topic"
  | CtxDone error
  | NoneReady
  | SendPanic

text \<open>
  The select of \<^verbatim>\<open>Publish\<close>, evaluated once: \<open>cerr\<close> is what \<^verbatim>\<open>ctx.Err()\<close> is at that
  moment (None while \<^verbatim>\<open>ctx.Done()\<close> is open), and \<open>pick\<close> is the runtime's choice when
  both cases are ready (True: the send).
\<close>

definition select_send ::
  "('e, 'u) topic \<Rightarrow> 'e item \<Rightarrow> error option \<Rightarrow> bool \<Rightarrow> ('e, 'u) selected" where
  "select_send t x cerr pick =
     (if can_send t \<and> (cerr = None \<or> pick) then
        (if ch_closed t then SendPanic
         else if int (length (ch t)) < ch_cap t then Buffered (t\<lparr>ch := ch t @ [x]\<rparr>)
         else HandedOff (t\<lparr>goroutines := hand_off x (goroutines t)\<rparr>))
      else (case cerr of Some e \<Rightarrow> CtxDone e | None \<Rightarrow> NoneReady))"

datatype 'e publish_result = Returned "error option" | Blocked string "'e item" | Panicked

text \<open>What the chosen case of the select does to the bus and returns.\<close>

definition apply_select ::
  "string \<Rightarrow> 'e item \<Rightarrow> ('e, 'u) memoryBus \<Rightarrow> ('e, 'u) selected \<Rightarrow> 'e publish_result \<times> ('e, 'u) memoryBus" where
  "apply_select topicName x b sel =
     (case sel of
        Buffered t1 \<Rightarrow> (Returned None, b\<lparr>topics := AList.update topicName t1 (topics b)\<rparr>)
      | HandedOff t1 \<Rightarrow> (Returned None, b\<lparr>topics := AList.update topicName t1 (topics b)\<rparr>)
      | CtxDone e \<Rightarrow> (Returned (Some e), b)
      | NoneReady \<Rightarrow> (Blocked topicName x, b)
      | SendPanic \<Rightarrow> (Panicked, b))"

text \<open>
  \<^verbatim>\<open>Publish\<close> up to the first evaluation of its select. \<open>Blocked\<close> says that no case
  was ready: the caller waits in the select, which is evaluated again later.
\<close>

definition Publish ::
  "('e, 'u) memoryBus \<Rightarrow> store \<Rightarrow> env \<Rightarrow> Context option \<Rightarrow> string \<Rightarrow> 'e \<Rightarrow> PublishOption list \<Rightarrow> bool \<Rightarrow>
   'e publish_result \<times> ('e, 'u) memoryBus \<times> store" where
  "Publish b h en ctx0 topicName ev opts pick =
     (case publish_prepare b h ctx0 topicName ev opts of
        (Panic, b1, h1) \<Rightarrow> (Panicked, b1, h1)
      | (Ret (Inl e), b1, h1) \<Rightarrow> (Returned (Some e), b1, h1)
      | (Ret (Inr (x, t)), b1, h1) \<Rightarrow>
          (case apply_select topicName x b1 (select_send t x (ctx_Err en (ctx x)) pick) of
             (r, b2) \<Rightarrow> (r, b2, h1)))"

text \<open>\<^verbatim>\<open>Close\<close>; its error is always nil. Closing a closed channel panics.\<close>

definition Close :: "('e, 'u) memoryBus \<Rightarrow> ('e, 'u) memoryBus res" where
  "Close b =
     (if closed b then Ret b
      else if list_ex (\<lambda>(n, t). ch_closed t) (topics b) then Panic
      else Ret (b\<lparr>closed := True, topics := map (\<lambda>(n, t). (n, t\<lparr>ch_closed := True\<rparr>)) (topics b)\<rparr>))"

subsection \<open>The goroutines of a program, interleaved\<close>

text \<open>
  The state of a program that uses one bus: the bus, the world of the handlers, the
  cancellation scopes that are done, and the publishers waiting in the select of
  \<^verbatim>\<open>Publish\<close>, each with its topic and item.
\<close>

record ('e, 'u) sys =
  bus :: "('e, 'u) memoryBus"
  wld :: "'u world"
  scopes :: env
  waiting :: "(string \<times> 'e item) list"

text \<open>
  One action is one step of one goroutine: a call of the API from its start to its
  return or to its wait in the select, a waiting publisher's select evaluated again, one
  step of a worker, a scope expiring or being cancelled. Calls are taken whole, so
  a call starts after the calls before it in the schedule have returned or are waiting;
  handlers change the world and do not call the bus.
\<close>

datatype ('e, 'u) action =
    CallSubscribe string "('e, 'u) Handler option" "SubscribeOption list"
  | CallUnsubscribe memorySub
  | CallPublish "Context option" string 'e "PublishOption list" bool
  | Retry nat bool
  | CallClose
  | Work string nat "nat list"
  | Expire nat error

definition select_labels :: "string \<Rightarrow> 'e item \<Rightarrow> ('e, 'u) selected \<Rightarrow> 'e label list" where
  "select_labels name x sel =
     (case sel of
        Buffered t1 \<Rightarrow> [Enq name x]
      | HandedOff t1 \<Rightarrow> [Enq name x, Deq name x]
      | _ \<Rightarrow> [])"

definition publish_labels ::
  "('e, 'u) memoryBus \<Rightarrow> store \<Rightarrow> env \<Rightarrow> Context option \<Rightarrow> string \<Rightarrow> 'e \<Rightarrow> PublishOption list \<Rightarrow> bool \<Rightarrow>
   'e label list" where
  "publish_labels b h en ctx0 name ev opts pick =
     (case publish_prepare b h ctx0 name ev opts of
        (Ret (Inr (x, t)), b1, h1) \<Rightarrow> select_labels name x (select_send t x (ctx_Err en (ctx x)) pick)
      | _ \<Rightarrow> [])"

fun step :: "('e, 'u) action \<Rightarrow> ('e, 'u) sys \<Rightarrow> ('e label list \<times> ('e, 'u) sys) res" where
  "step (CallSubscribe name hdl opts) s =
     (case Subscribe (bus s) name hdl opts of
        (Panic, b1) \<Rightarrow> Panic
      | (Ret r, b1) \<Rightarrow> Ret ([], s\<lparr>bus := b1\<rparr>))"
| "step (CallUnsubscribe m) s = Ret ([], s\<lparr>bus := Unsubscribe m (bus s)\<rparr>)"
| "step (CallPublish ctx0 name ev opts pick) s =
     (case Publish (bus s) (hp (wld s)) (scopes s) ctx0 name ev opts pick of
        (Panicked, b1, h1) \<Rightarrow> Panic
      | (Returned r, b1, h1) \<Rightarrow>
          Ret (publish_labels (bus s) (hp (wld s)) (scopes s) ctx0 name ev opts pick,
               s\<lparr>bus := b1, wld := (wld s)\<lparr>hp := h1\<rparr>\<rparr>)
      | (Blocked n x, b1, h1) \<Rightarrow>
          Ret ([], s\<lparr>bus := b1, wld := (wld s)\<lparr>hp := h1\<rparr>, waiting := waiting s @ [(n, x)]\<rparr>))"
| "step (Retry k pick) s =
     (if k < length (waiting s) then
        (case waiting s ! k of
           (name, x) \<Rightarrow>
             (case map_of (topics (bus s)) name of
                None \<Rightarrow> Ret ([], s)
              | Some t \<Rightarrow>
                  (let sel = select_send t x (ctx_Err (scopes s) (ctx x)) pick
                   in (case apply_select name x (bus s) sel of
                         (Panicked, b1) \<Rightarrow> Panic
                       | (Blocked n y, b1) \<Rightarrow> Ret ([], s)
                       | (Returned r, b1) \<Rightarrow>
                           Ret (select_labels name x sel,
                                s\<lparr>bus := b1, waiting := take k (waiting s) @ drop (Suc k) (waiting s)\<rparr>)))))
      else Ret ([], s))"
| "step CallClose s = (case Close (bus s) of Panic \<Rightarrow> Panic | Ret b1 \<Rightarrow> Ret ([], s\<lparr>bus := b1\<rparr>))"
| "step (Work name i order) s =
     (case map_of (topics (bus s)) name of
        None \<Rightarrow> Ret ([], s)
      | Some t \<Rightarrow>
          if i < length (goroutines t) then
            (case worker_step (cfg (bus s)) name order t (goroutines t ! i) (wld s) of
               (ls, t1, g1, w1) \<Rightarrow>
                 Ret (ls, s\<lparr>bus := (bus s)\<lparr>topics :=
                                 AList.update name (t1\<lparr>goroutines := (goroutines t1)[i := g1]\<rparr>)
                                   (topics (bus s))\<rparr>,
                             wld := w1\<rparr>))
          else Ret ([], s))"
| "step (Expire i e) s =
     Ret ([], s\<lparr>scopes := (\<lambda>j. if j = i then (case scopes s i of None \<Rightarrow> Some e | Some e0 \<Rightarrow> Some e0)
                                else scopes s j)\<rparr>)"

fun run :: "('e, 'u) action list \<Rightarrow> ('e, 'u) sys \<Rightarrow> ('e label list \<times> ('e, 'u) sys) res" where
  "run [] s = Ret ([], s)"
| "run (a # as) s =
     (case step a s of
        Panic \<Rightarrow> Panic
      | Ret (ls, s1) \<Rightarrow>
          (case run as s1 of
             Panic \<Rightarrow> Panic
           | Ret (tr, s2) \<Rightarrow> Ret (ls @ tr, s2)))"

subsection \<open>Observations\<close>

text \<open>
  The world after the first \<open>j\<close> invocations of a handler for an item, one after the
  other, and the result of the invocation that follows them.
\<close>

fun world_after :: "('e, 'u) Handler \<Rightarrow> 'e item \<Rightarrow> nat \<Rightarrow> 'u world \<Rightarrow> 'u world" where
  "world_after h it 0 w = w"
| "world_after h it (Suc j) w = world_after h it j (snd (h (ctx it) (event it) w))"

definition outcome :: "('e, 'u) Handler \<Rightarrow> 'e item \<Rightarrow> nat \<Rightarrow> 'u world \<Rightarrow> error option" where
  "outcome h it j w = fst (h (ctx it) (event it) (world_after h it j w))"

text \<open>The retry budget the worker gives a subscription.\<close>

definition budget :: "('e, 'u) subscription \<Rightarrow> nat" where
  "budget sub = (if Retries (config sub) \<le> 0 then 1 else nat (Retries (config sub)))"




text \<open>
  A handler reports to a log \<open>lg\<close> of the world under the number \<open>i\<close> when every
  invocation appends \<open>i\<close> to the log; a hook is silent when it leaves the log as it is.
\<close>

definition reports :: "('u world \<Rightarrow> nat list) \<Rightarrow> nat \<Rightarrow> ('e, 'u) Handler \<Rightarrow> bool" where
  "reports lg i h = (\<forall>c ev w. lg (snd (h c ev w)) = lg w @ [i])"

definition silent :: "('u world \<Rightarrow> nat list) \<Rightarrow> ('e, 'u) ErrorHook option \<Rightarrow> bool" where
  "silent lg hk = (case hk of None \<Rightarrow> True | Some g \<Rightarrow> \<forall>c n ev e w. lg (g c n ev e w) = lg w)"

text \<open>
  The shape of a bus: the bus with every handler replaced by one that does nothing and
  with no hook. Two buses of the same shape differ in their handlers and hook only.
\<close>

definition no_handler :: "('e, 'v) Handler" where
  "no_handler c ev w = (None, w)"

definition strip_sub :: "('e, 'u) subscription \<Rightarrow> ('e, 'v) subscription" where
  "strip_sub s = \<lparr>handler = no_handler, config = config s\<rparr>"

fun strip_goroutine :: "('e, 'u) goroutine \<Rightarrow> ('e, 'v) goroutine" where
  "strip_goroutine Receiving = Receiving"
| "strip_goroutine (Snapshotting x) = Snapshotting x"
| "strip_goroutine (Dispatching x ss) = Dispatching x (map strip_sub ss)"
| "strip_goroutine Exited = Exited"

definition strip_topic :: "('e, 'u) topic \<Rightarrow> ('e, 'v) topic" where
  "strip_topic t =
     \<lparr>ch = ch t, ch_cap = ch_cap t, ch_closed = ch_closed t, workers = workers t,
      subs = map (\<lambda>(i, s). (i, strip_sub s)) (subs t), nextID = nextID t,
      goroutines = map strip_goroutine (goroutines t)\<rparr>"

definition shape :: "('e, 'u) memoryBus \<Rightarrow> ('e, 'v) memoryBus" where
  "shape b =
     \<lparr>cfg = \<lparr>BufferSize = BufferSize (cfg b), WorkersPerTopic = WorkersPerTopic (cfg b), OnError = None\<rparr>,
      topics = map (\<lambda>(n, t). (n, strip_topic t)) (topics b), closed = closed b\<rparr>"



text \<open>
  The envelopes that the channel of topic \<open>n\<close> accepted, and those that a worker of
  topic \<open>n\<close> received, in the order of a trace.
\<close>

fun topic_of :: "'e label \<Rightarrow> string" where
  "topic_of (Enq m x) = m"
| "topic_of (Deq m x) = m"
| "topic_of (Snap m x k) = m"
| "topic_of (Handle m x) = m"

fun enqs :: "string \<Rightarrow> 'e label list \<Rightarrow> 'e item list" where
  "enqs n [] = []"
| "enqs n (Enq m x # tr) = (if m = n then x # enqs n tr else enqs n tr)"
| "enqs n (Deq m x # tr) = enqs n tr"
| "enqs n (Snap m x k # tr) = enqs n tr"
| "enqs n (Handle m x # tr) = enqs n tr"

fun deqs :: "string \<Rightarrow> 'e label list \<Rightarrow> 'e item list" where
  "deqs n [] = []"
| "deqs n (Enq m x # tr) = deqs n tr"
| "deqs n (Deq m x # tr) = (if m = n then x # deqs n tr else deqs n tr)"
| "deqs n (Snap m x k # tr) = deqs n tr"
| "deqs n (Handle m x # tr) = deqs n tr"

text \<open>
  A worker that serves one envelope at a time is free, or has received an envelope and
  not yet taken the snapshot, or is serving an envelope with \<open>k\<close> subscriptions of the
  snapshot still to serve. A trace keeps to this, for topic \<open>n\<close>, when an envelope is
  received only by a free worker, a snapshot is taken only for the envelope just
  received, and a subscription is served only for the envelope of the snapshot and only
  while one is still to serve.
\<close>

datatype 'e phase = Free | Got "'e item" | Serving "'e item" nat

definition serving :: "'e item \<Rightarrow> nat \<Rightarrow> 'e phase" where
  "serving x k = (if k = 0 then Free else Serving x k)"

fun next_phase :: "string \<Rightarrow> 'e phase \<Rightarrow> 'e label \<Rightarrow> 'e phase option" where
  "next_phase n p (Enq m x) = Some p"
| "next_phase n p (Deq m x) = (if m = n then (if p = Free then Some (Got x) else None) else Some p)"
| "next_phase n p (Snap m x k) =
     (if m = n then (if p = Got x then Some (serving x k) else None) else Some p)"
| "next_phase n p (Handle m x) =
     (if m = n then
        (case p of
           Serving y k \<Rightarrow> if y = x \<and> 0 < k then Some (serving x (k - 1)) else None
         | _ \<Rightarrow> None)
      else Some p)"

fun phases :: "string \<Rightarrow> 'e phase option \<Rightarrow> 'e label list \<Rightarrow> 'e phase option" where
  "phases n po [] = po"
| "phases n po (l # tr) = phases n (case po of None \<Rightarrow> None | Some p \<Rightarrow> next_phase n p l) tr"

definition one_at_a_time :: "string \<Rightarrow> 'e label list \<Rightarrow> bool" where
  "one_at_a_time n tr = (phases n (Some Free) tr \<noteq> None)"

text \<open>
  The invariant of a topic with one worker: what was accepted is what was received
  followed by what is buffered, and the worker goroutine is at the point the trace says.
\<close>

fun held :: "('e, 'u) goroutine \<Rightarrow> 'e phase \<Rightarrow> bool" where
  "held Receiving p = (p = Free)"
| "held (Snapshotting x) p = (p = Got x)"
| "held (Dispatching x ss) p = (p = serving x (length ss))"
| "held Exited p = (p = Free)"

definition topic_inv :: "string \<Rightarrow> 'e label list \<Rightarrow> ('e, 'u) topic \<Rightarrow> bool" where
  "topic_inv n tr t =
     (enqs n tr = deqs n tr @ ch t \<and>
      (\<exists>g p. goroutines t = [g] \<and> phases n (Some Free) tr = Some p \<and> held g p))"

definition fifo_inv :: "string \<Rightarrow> 'e label list \<Rightarrow> ('e, 'u) memoryBus \<Rightarrow> bool" where
  "fifo_inv n tr b =
     (WorkersPerTopic (cfg b) = 1 \<and>
      (case map_of (topics b) n of
         None \<Rightarrow> enqs n tr = [] \<and> deqs n tr = [] \<and> phases n (Some Free) tr = Some Free
       | Some t \<Rightarrow> topic_inv n tr t))"

subsection \<open>Handlers and hooks used as examples\<close>

text \<open>
  Handlers over a world whose own state is a counter of invocations and the list of the
  errors the hook has received: one that always fails, one that fails on its first
  invocation only, and a hook that keeps the error it is given.
\<close>

definition failing_counter :: "(any, nat \<times> error list) Handler" where
  "failing_counter c ev w =
     (Some (HandlerError ''fail''), w\<lparr>user := (Suc (fst (user w)), snd (user w))\<rparr>)"

definition flaky_counter :: "(any, nat \<times> error list) Handler" where
  "flaky_counter c ev w =
     (if fst (user w) = 0 then Some (HandlerError ''fail'') else None,
      w\<lparr>user := (Suc (fst (user w)), snd (user w))\<rparr>)"

definition keep_error :: "(any, nat \<times> error list) ErrorHook" where
  "keep_error c name ev err w = w\<lparr>user := (fst (user w), snd (user w) @ [err])\<rparr>"

definition add_int :: "(int, nat \<times> error list) TypedHandler" where
  "add_int c v w = (None, w\<lparr>user := (fst (user w) + nat v, snd (user w))\<rparr>)"





text \<open>
  Handlers that append their number to a log, one failing and one succeeding, and the
  default bus with one of them subscribed to topic \<^verbatim>\<open>x\<close>.
\<close>

definition failing_logger :: "nat \<Rightarrow> (any, nat list) Handler" where
  "failing_logger i c ev w = (Some (HandlerError ''fail''), w\<lparr>user := user w @ [i]\<rparr>)"

definition quiet_logger :: "nat \<Rightarrow> (any, nat list) Handler" where
  "quiet_logger i c ev w = (None, w\<lparr>user := user w @ [i]\<rparr>)"

definition logger_bus :: "(any, nat list) Handler \<Rightarrow> (any, nat list) memoryBus" where
  "logger_bus h =
     \<lparr>cfg = \<lparr>BufferSize = 64, WorkersPerTopic = 1, OnError = None\<rparr>,
      topics = [(''x'', \<lparr>ch = [], ch_cap = 64, ch_closed = False, workers = 1,
                          subs = [(1, \<lparr>handler = h, config = \<lparr>Retries = 1\<rparr>\<rparr>)],
                          nextID = 1, goroutines = [Receiving]\<rparr>)],
      closed = False\<rparr>"



text \<open>
  A program that subscribes a handler adding integers, publishes 3 and 4, and lets the
  worker run; and the trace it is expected to leave.
\<close>

definition sum_start :: "(any, nat \<times> error list) sys" where
  "sum_start =
     \<lparr>bus = NewMemoryBus [WithBuffer 16, WithWorkers 1], wld = \<lparr>hp = [], user = (0, [])\<rparr>,
      scopes = (\<lambda>i. None), waiting = []\<rparr>"

definition sum_schedule :: "(any, nat \<times> error list) action list" where
  "sum_schedule =
     [CallSubscribe ''topic'' (Some (AsHandler assert_int add_int)) [],
      CallPublish None ''topic'' (AnyInt 3) [] True,
      CallPublish None ''topic'' (AnyInt 4) [] True,
      Work ''topic'' 0 [0], Work ''topic'' 0 [0], Work ''topic'' 0 [0], Work ''topic'' 0 [0],
      Work ''topic'' 0 [0], Work ''topic'' 0 [0], Work ''topic'' 0 [0], Work ''topic'' 0 [0]]"

definition sum_trace :: "any label list" where
  "sum_trace =
     [Enq ''topic'' \<lparr>ctx = Background, event = AnyInt 3\<rparr>,
      Enq ''topic'' \<lparr>ctx = Background, event = AnyInt 4\<rparr>,
      Deq ''topic'' \<lparr>ctx = Background, event = AnyInt 3\<rparr>,
      Snap ''topic'' \<lparr>ctx = Background, event = AnyInt 3\<rparr> 1,
      Handle ''topic'' \<lparr>ctx = Background, event = AnyInt 3\<rparr>,
      Deq ''topic'' \<lparr>ctx = Background, event = AnyInt 4\<rparr>,
      Snap ''topic'' \<lparr>ctx = Background, event = AnyInt 4\<rparr> 1,
      Handle ''topic'' \<lparr>ctx = Background, event = AnyInt 4\<rparr>]"

section \<open>Properties\<close>

subsection \<open>The retry loop\<close>

declare attempts.simps [simp del]

lemma outcome_0: "outcome h it 0 w = fst (h (ctx it) (event it) w)"
  by (simp add: outcome_def)

lemma outcome_Suc: "outcome h it (Suc j) w = outcome h it j (snd (h (ctx it) (event it) w))"
  by (simp add: outcome_def)

text \<open>
  While the handler fails, the loop goes on to the end of the budget: after \<open>k\<close> failed
  attempts that exhaust it, the world is the one after \<open>k\<close> invocations and \<^verbatim>\<open>lastErr\<close>
  is the error of the last one.
\<close>

lemma attempts_all_fail:
  "(\<forall>j<k. outcome h it j w \<noteq> None) \<Longrightarrow> attempt + int k = retries + 1 \<Longrightarrow>
   attempts h it retries attempt lastErr w =
     (if k = 0 then lastErr else outcome h it (k - 1) w, world_after h it k w)"
proof (induction k arbitrary: attempt lastErr w)
  case 0
  then have "\<not> attempt \<le> retries" by simp
  then show ?case by (subst attempts.simps) simp
next
  case (Suc k)
  obtain r w1 where hw: "h (ctx it) (event it) w = (r, w1)" by (cases "h (ctx it) (event it) w")
  from Suc.prems(1) have "outcome h it 0 w \<noteq> None" by blast
  with hw obtain e where r: "r = Some e" by (auto simp: outcome_0)
  have rest: "\<forall>j<k. outcome h it j w1 \<noteq> None"
    using Suc.prems(1) hw by (auto simp: outcome_Suc dest: spec [where x = "Suc j" for j])
  have le: "attempt \<le> retries" using Suc.prems(2) by simp
  have "attempts h it retries attempt lastErr w = attempts h it retries (attempt + 1) (Some e) w1"
    using le hw r by (simp add: attempts.simps [of h it retries attempt])
  also have "\<dots> = (if k = 0 then Some e else outcome h it (k - 1) w1, world_after h it k w1)"
    using Suc.IH [OF rest, of "attempt + 1" "Some e"] Suc.prems(2) by simp
  also have "\<dots> = (outcome h it k w, world_after h it (Suc k) w)"
    using hw r by (cases k) (simp_all add: outcome_0 outcome_Suc)
  finally show ?case by simp
qed

text \<open>The first success ends the loop, with \<^verbatim>\<open>lastErr\<close> nil.\<close>

lemma attempts_success:
  "(\<forall>j<k. outcome h it j w \<noteq> None) \<Longrightarrow> outcome h it k w = None \<Longrightarrow> attempt + int k \<le> retries \<Longrightarrow>
   attempts h it retries attempt lastErr w = (None, world_after h it (Suc k) w)"
proof (induction k arbitrary: attempt lastErr w)
  case 0
  obtain r w1 where hw: "h (ctx it) (event it) w = (r, w1)" by (cases "h (ctx it) (event it) w")
  with 0 show ?case by (simp add: attempts.simps [of h it retries attempt] outcome_0)
next
  case (Suc k)
  obtain r w1 where hw: "h (ctx it) (event it) w = (r, w1)" by (cases "h (ctx it) (event it) w")
  from Suc.prems(1) have "outcome h it 0 w \<noteq> None" by blast
  with hw obtain e where r: "r = Some e" by (auto simp: outcome_0)
  have rest: "\<forall>j<k. outcome h it j w1 \<noteq> None"
    using Suc.prems(1) hw by (auto simp: outcome_Suc dest: spec [where x = "Suc j" for j])
  have last: "outcome h it k w1 = None" using Suc.prems(2) hw by (simp add: outcome_Suc)
  have le: "attempt \<le> retries" using Suc.prems(3) by simp
  have "attempts h it retries attempt lastErr w = attempts h it retries (attempt + 1) (Some e) w1"
    using le hw r by (simp add: attempts.simps [of h it retries attempt])
  also have "\<dots> = (None, world_after h it (Suc k) w1)"
    using Suc.IH [OF rest last, of "attempt + 1" "Some e"] Suc.prems(3) by simp
  finally show ?case using hw by simp
qed

lemma budget_pos: "1 \<le> budget sub"
  by (auto simp: budget_def)

lemma deliver_all_fail:
  assumes "\<forall>j<budget sub. outcome (handler sub) it j w \<noteq> None"
  shows "\<exists>e. outcome (handler sub) it (budget sub - 1) w = Some e \<and>
             deliver c name it sub w =
               (case OnError c of
                  None \<Rightarrow> world_after (handler sub) it (budget sub) w
                | Some hook \<Rightarrow> hook (ctx it) name (event it) e (world_after (handler sub) it (budget sub) w))"
proof -
  let ?r = "if Retries (config sub) \<le> 0 then 1 else Retries (config sub)"
  have pos: "0 < budget sub" and r: "1 + int (budget sub) = ?r + 1"
    by (simp_all add: budget_def)
  from assms pos obtain e where e: "outcome (handler sub) it (budget sub - 1) w = Some e"
    by (metis diff_less not_None_eq zero_less_one)
  have "attempts (handler sub) it ?r 1 None w = (Some e, world_after (handler sub) it (budget sub) w)"
    using attempts_all_fail [OF assms r, of None] pos e by simp
  then show ?thesis using e by (simp add: deliver_def Let_def split: option.split)
qed

lemma deliver_success:
  assumes "1 \<le> k" "k \<le> budget sub"
    and "\<forall>j<k - 1. outcome (handler sub) it j w \<noteq> None"
    and "outcome (handler sub) it (k - 1) w = None"
  shows "deliver c name it sub w = world_after (handler sub) it k w"
proof -
  let ?r = "if Retries (config sub) \<le> 0 then 1 else Retries (config sub)"
  have r: "1 + int (k - 1) \<le> ?r" using assms(1,2) by (simp add: budget_def split: if_splits)
  have "attempts (handler sub) it ?r 1 None w = (None, world_after (handler sub) it (Suc (k - 1)) w)"
    by (rule attempts_success [OF assms(3,4) r])
  then show ?thesis using assms(1) by (simp add: deliver_def Let_def)
qed

text \<open>
  C1. For a delivered envelope \<open>it\<close> and a subscription \<open>sub\<close> of the snapshot, whose
  budget \<open>budget sub\<close> is at least 1: if the handler fails on every attempt of the
  budget, the world after the delivery is the world after exactly \<open>budget sub\<close>
  invocations of the handler, to which the hook, if one is configured, has been applied
  once, with the error of the last invocation (with no hook the failure leaves no other
  trace); if the handler fails on the attempts before the \<open>k\<close>-th and succeeds on the
  \<open>k\<close>-th, for a \<open>k\<close> within the budget, the world after the delivery is the world after
  exactly \<open>k\<close> invocations, and no hook has been applied.
\<close>

theorem retries_then_hook:
  "1 \<le> budget sub \<and>
   ((\<forall>j<budget sub. outcome (handler sub) it j w \<noteq> None) \<longrightarrow>
      (\<exists>e. outcome (handler sub) it (budget sub - 1) w = Some e \<and>
           deliver c name it sub w =
             (case OnError c of
                None \<Rightarrow> world_after (handler sub) it (budget sub) w
              | Some hook \<Rightarrow> hook (ctx it) name (event it) e (world_after (handler sub) it (budget sub) w)))) \<and>
   (1 \<le> k \<and> k \<le> budget sub \<and> (\<forall>j<k - 1. outcome (handler sub) it j w \<noteq> None) \<and>
      outcome (handler sub) it (k - 1) w = None \<longrightarrow>
      deliver c name it sub w = world_after (handler sub) it k w)"
  using budget_pos [of sub] deliver_all_fail [of sub it w c name]
    deliver_success [of k sub it w c name] by blast

text \<open>
  The handler that always fails, subscribed with three attempts, is invoked three times
  and the hook receives the error once; the handler that fails once, with the same
  budget, is invoked twice and the hook receives nothing.
\<close>

theorem retries_then_hook_witness:
  "user (deliver \<lparr>BufferSize = 8, WorkersPerTopic = 1, OnError = Some keep_error\<rparr> ''t''
           \<lparr>ctx = Background, event = AnyInt 1\<rparr>
           \<lparr>handler = failing_counter, config = \<lparr>Retries = 3\<rparr>\<rparr>
           \<lparr>hp = [], user = (0, [])\<rparr>) = (3, [HandlerError ''fail'']) \<and>
   user (deliver \<lparr>BufferSize = 8, WorkersPerTopic = 1, OnError = Some keep_error\<rparr> ''t''
           \<lparr>ctx = Background, event = AnyInt 1\<rparr>
           \<lparr>handler = flaky_counter, config = \<lparr>Retries = 3\<rparr>\<rparr>
           \<lparr>hp = [], user = (0, [])\<rparr>) = (2, [])"
  using retries_then_hook [of "\<lparr>handler = failing_counter, config = \<lparr>Retries = 3\<rparr>\<rparr>"
      "\<lparr>ctx = Background, event = AnyInt 1\<rparr>" "\<lparr>hp = [], user = (0, [])\<rparr>"
      "\<lparr>BufferSize = 8, WorkersPerTopic = 1, OnError = Some keep_error\<rparr>" "''t''" 1]
    retries_then_hook [of "\<lparr>handler = flaky_counter, config = \<lparr>Retries = 3\<rparr>\<rparr>"
      "\<lparr>ctx = Background, event = AnyInt 1\<rparr>" "\<lparr>hp = [], user = (0, [])\<rparr>"
      "\<lparr>BufferSize = 8, WorkersPerTopic = 1, OnError = Some keep_error\<rparr>" "''t''" 2]
  by (simp add: budget_def outcome_def failing_counter_def flaky_counter_def keep_error_def
      eval_nat_numeral less_Suc_eq)

subsection \<open>The typed adapter\<close>

text \<open>
  C8. The handler that \<^verbatim>\<open>AsHandler\<close> makes from a typed handler \<open>h\<close>: when the type
  assertion on the payload fails, it returns nil and leaves the world as it is (\<open>h\<close> is
  not invoked); when the assertion yields \<open>v\<close>, it is the invocation of \<open>h\<close> with \<open>v\<close>,
  result and effect.
\<close>

theorem typed_adapter:
  "(assert ev = None \<longrightarrow> AsHandler assert h c ev w = (None, w)) \<and>
   (assert ev = Some v \<longrightarrow> AsHandler assert h c ev w = h c v w)"
  by (simp add: AsHandler_def)

theorem typed_adapter_witness:
  "AsHandler assert_int add_int Background (AnyString ''nine'') \<lparr>hp = [], user = (0, [])\<rparr> =
     (None, \<lparr>hp = [], user = (0, [])\<rparr>) \<and>
   AsHandler assert_int add_int Background (AnyInt 9) \<lparr>hp = [], user = (0, [])\<rparr> =
     (None, \<lparr>hp = [], user = (9, [])\<rparr>)"
  using typed_adapter [of assert_int "AnyString ''nine''" add_int Background
      "\<lparr>hp = [], user = (0, [])\<rparr>" 0]
    typed_adapter [of assert_int "AnyInt 9" add_int Background "\<lparr>hp = [], user = (0, [])\<rparr>" 9]
  by (simp add: add_int_def)

subsection \<open>Subscribe without a handler\<close>

text \<open>
  C9. In every state of the bus and for every topic name and options, \<^verbatim>\<open>Subscribe\<close>
  with a nil handler returns \<^verbatim>\<open>ErrNilHandler\<close> and the bus is the one it was given:
  its topics, their worker goroutines and their subscriptions are unchanged.
\<close>

theorem nil_handler_rejected:
  "Subscribe b name None opts = (Ret (Inl ErrNilHandler), b)"
  by (simp add: Subscribe_def)

subsection \<open>What the operations leave alone\<close>

text \<open>
  No operation changes the configuration of the bus, and only \<^verbatim>\<open>Close\<close> changes the
  closed flag, from false to true.
\<close>

lemma ensureTopic_frame:
  "ensureTopic b n = Ret (Some (t, b1)) \<Longrightarrow> cfg b1 = cfg b \<and> closed b1 = closed b \<and> \<not> closed b"
  by (auto simp: ensureTopic_def Let_def split: if_splits option.splits)

lemma apply_select_frame:
  "apply_select n x b sel = (r, b1) \<Longrightarrow> cfg b1 = cfg b \<and> closed b1 = closed b"
  by (auto simp: apply_select_def split: selected.splits)

lemma Subscribe_frame:
  "Subscribe b n hdl opts = (r, b1) \<Longrightarrow> cfg b1 = cfg b \<and> closed b1 = closed b"
  by (auto simp: Subscribe_def Let_def split: option.splits if_splits res.splits
      dest!: ensureTopic_frame)

lemma Unsubscribe_frame: "cfg (Unsubscribe m b) = cfg b \<and> closed (Unsubscribe m b) = closed b"
  by (simp add: Unsubscribe_def split: option.splits)

lemma publish_prepare_frame:
  "publish_prepare b h c0 n ev opts = (r, b1, h1) \<Longrightarrow> cfg b1 = cfg b \<and> closed b1 = closed b"
  by (auto simp: publish_prepare_def Let_def split: if_splits prod.splits res.splits option.splits
      dest!: ensureTopic_frame)

lemma Publish_frame:
  "Publish b h en c0 n ev opts pick = (r, b1, h1) \<Longrightarrow> cfg b1 = cfg b \<and> closed b1 = closed b"
  by (auto simp: Publish_def split: prod.splits res.splits sum.splits
      dest!: publish_prepare_frame apply_select_frame)

lemma Close_frame: "Close b = Ret b1 \<Longrightarrow> cfg b1 = cfg b \<and> closed b1"
  by (auto simp: Close_def split: if_splits)

lemma step_frame:
  "step a s = Ret (ls, s1) \<Longrightarrow> cfg (bus s1) = cfg (bus s) \<and> (closed (bus s) \<longrightarrow> closed (bus s1))"
proof (cases a)
  case (CallSubscribe n hdl opts)
  then show "step a s = Ret (ls, s1) \<Longrightarrow> ?thesis"
    by (auto split: prod.splits res.splits dest!: Subscribe_frame)
next
  case (CallUnsubscribe m)
  then show "step a s = Ret (ls, s1) \<Longrightarrow> ?thesis" by (auto simp: Unsubscribe_frame)
next
  case (CallPublish c0 n ev opts pick)
  then show "step a s = Ret (ls, s1) \<Longrightarrow> ?thesis"
    by (auto split: prod.splits publish_result.splits dest!: Publish_frame)
next
  case (Retry k pick)
  then show "step a s = Ret (ls, s1) \<Longrightarrow> ?thesis"
    by (auto simp: Let_def split: if_splits prod.splits option.splits publish_result.splits
        dest!: apply_select_frame)
next
  case CallClose
  then show "step a s = Ret (ls, s1) \<Longrightarrow> ?thesis"
    by (auto split: res.splits dest!: Close_frame)
next
  case (Work n i order)
  then show "step a s = Ret (ls, s1) \<Longrightarrow> ?thesis"
    by (auto split: option.splits if_splits prod.splits)
next
  case (Expire i e)
  then show "step a s = Ret (ls, s1) \<Longrightarrow> ?thesis" by auto
qed

lemma run_frame:
  "run acts s = Ret (tr, s1) \<Longrightarrow> cfg (bus s1) = cfg (bus s) \<and> (closed (bus s) \<longrightarrow> closed (bus s1))"
proof (induction acts arbitrary: s tr)
  case Nil
  then show ?case by simp
next
  case (Cons a acts)
  from Cons.prems obtain ls s2 tr2 where st: "step a s = Ret (ls, s2)" and r: "run acts s2 = Ret (tr2, s1)"
    by (auto split: res.splits prod.splits)
  from step_frame [OF st] Cons.IH [OF r] show ?case by simp
qed

subsection \<open>A closed bus\<close>

lemma Publish_closed: "closed b \<Longrightarrow> Publish b h en c0 n ev opts pick = (Returned (Some ErrClosed), b, h)"
  by (simp add: Publish_def publish_prepare_def)

lemma Subscribe_closed: "closed b \<Longrightarrow> Subscribe b n (Some hdl) opts = (Ret (Inl ErrClosed), b)"
  by (simp add: Subscribe_def)

text \<open>
  C3. Once \<^verbatim>\<open>Close\<close> has returned, whatever the goroutines of the program do next
  (any schedule \<open>acts\<close> that runs to a state \<open>s\<close>), the bus is closed, and a call of
  \<^verbatim>\<open>Publish\<close> or of \<^verbatim>\<open>Subscribe\<close> with a handler returns \<^verbatim>\<open>ErrClosed\<close>, not having
  waited, with the bus it found: no topic made, no subscription registered, nothing
  enqueued, the store of maps untouched.
\<close>

theorem closed_bus_rejects:
  assumes "Close b0 = Ret b" and "bus s0 = b" and "run acts s0 = Ret (tr, s)"
  shows "closed (bus s) \<and>
         Publish (bus s) h en c0 n ev opts pick = (Returned (Some ErrClosed), bus s, h) \<and>
         Subscribe (bus s) n (Some hdl) sopts = (Ret (Inl ErrClosed), bus s)"
proof -
  have "closed (bus s0)" using assms(1,2) Close_frame by blast
  then have "closed (bus s)" using run_frame [OF assms(3)] by simp
  then show ?thesis by (simp add: Publish_closed Subscribe_closed)
qed


text \<open>
  On the closed bus made from \<^verbatim>\<open>NewMemoryBus()\<close>, after a schedule of a Subscribe, a
  Publish and a worker step, both calls return \<^verbatim>\<open>ErrClosed\<close>.
\<close>

theorem closed_bus_rejects_witness:
  "Publish (\<lparr>cfg = \<lparr>BufferSize = 64, WorkersPerTopic = 1, OnError = None\<rparr>, topics = [], closed = True\<rparr>
             :: (any, nat \<times> error list) memoryBus)
      [] (\<lambda>i. None) (Some Background) ''x'' (AnyInt 1) [] True =
     (Returned (Some ErrClosed),
      \<lparr>cfg = \<lparr>BufferSize = 64, WorkersPerTopic = 1, OnError = None\<rparr>, topics = [], closed = True\<rparr>, []) \<and>
   Subscribe \<lparr>cfg = \<lparr>BufferSize = 64, WorkersPerTopic = 1, OnError = None\<rparr>, topics = [], closed = True\<rparr>
      ''x'' (Some failing_counter) [] =
     (Ret (Inl ErrClosed),
      \<lparr>cfg = \<lparr>BufferSize = 64, WorkersPerTopic = 1, OnError = None\<rparr>, topics = [], closed = True\<rparr>)"
proof -
  let ?b0 = "NewMemoryBus [] :: (any, nat \<times> error list) memoryBus"
  let ?b = "\<lparr>cfg = \<lparr>BufferSize = 64, WorkersPerTopic = 1, OnError = None\<rparr>, topics = [], closed = True\<rparr>
              :: (any, nat \<times> error list) memoryBus"
  let ?s = "\<lparr>bus = ?b, wld = \<lparr>hp = [], user = (0, [])\<rparr>, scopes = (\<lambda>i. None), waiting = []\<rparr>"
  let ?acts = "[CallSubscribe ''x'' (Some failing_counter) [], CallPublish (Some Background) ''x'' (AnyInt 1) [] True,
                Work ''x'' 0 []]"
  have c: "Close ?b0 = Ret ?b" by (simp add: Close_def NewMemoryBus_def)
  have b: "bus ?s = ?b" by simp
  have r: "run ?acts ?s = Ret ([], ?s)"
    by (simp add: Subscribe_def Publish_def publish_prepare_def publish_labels_def)
  show ?thesis
    using closed_bus_rejects [OF c b r, of "[]" "\<lambda>i. None" "Some Background" "''x''" "AnyInt 1" "[]" True
        failing_counter "[]"]
    by simp
qed

subsection \<open>The select of Publish\<close>

lemma ContextWithHeaders_Err:
  "ContextWithHeaders c hs h = (c1, h1) \<Longrightarrow> ctx_Err en c1 = ctx_Err en c"
  by (auto simp: ContextWithHeaders_def make_map_def split: if_splits)

lemma publish_prepare_item:
  assumes "publish_prepare b h c0 n ev opts = (Ret (Inr (x, t)), b1, h1)"
  shows "event x = ev \<and> ensureTopic b n = Ret (Some (t, b1)) \<and>
         ctx_Err en (ctx x) = ctx_Err en (case c0 of None \<Rightarrow> Background | Some c \<Rightarrow> c)"
  using assms
  by (auto simp: publish_prepare_def Let_def split: if_splits prod.splits res.splits option.splits
      dest: ContextWithHeaders_Err)

lemma publish_prepare_open:
  assumes "ensureTopic b n = Ret (Some (t, b1))"
  shows "\<exists>x h1. publish_prepare b h c0 n ev opts = (Ret (Inr (x, t)), b1, h1)"
  using assms ensureTopic_frame [OF assms]
  by (auto simp: publish_prepare_def Let_def split: prod.splits)


lemma Publish_via_select:
  assumes "ensureTopic b n = Ret (Some (t, b1))"
  shows "\<exists>x h1. event x = ev \<and>
           Publish b h en c0 n ev opts pick =
             (case apply_select n x b1
                     (select_send t x (ctx_Err en (case c0 of None \<Rightarrow> Background | Some c \<Rightarrow> c)) pick) of
                (r, b2) \<Rightarrow> (r, b2, h1))"
proof -
  from publish_prepare_open [OF assms] obtain x h1
    where pp: "publish_prepare b h c0 n ev opts = (Ret (Inr (x, t)), b1, h1)" by blast
  from publish_prepare_item [OF pp, of en] pp show ?thesis
    by (auto simp: Publish_def)
qed










subsection \<open>Topics are made as configured\<close>

lemma length_hand_off [simp]: "length (hand_off x gs) = length gs"
  by (induction x gs rule: hand_off.induct) simp_all
















lemma deliver_attempts_once:
  "\<exists>k. 1 \<le> k \<and> k \<le> budget sub \<and>
       (deliver c n it sub w = world_after (handler sub) it k w \<or>
        (\<exists>hook e. OnError c = Some hook \<and>
           deliver c n it sub w = hook (ctx it) n (event it) e (world_after (handler sub) it k w)))"
proof (cases "\<forall>j<budget sub. outcome (handler sub) it j w \<noteq> None")
  case True
  from deliver_all_fail [OF True, of c n] budget_pos [of sub] show ?thesis
    by (cases "OnError c") auto
next
  case False
  then have ex: "\<exists>j. j < budget sub \<and> outcome (handler sub) it j w = None" by auto
  define k0 where "k0 = (LEAST j. j < budget sub \<and> outcome (handler sub) it j w = None)"
  from LeastI_ex [OF ex] have k0: "k0 < budget sub" "outcome (handler sub) it k0 w = None"
    by (simp_all add: k0_def)
  have before: "\<forall>j<k0. outcome (handler sub) it j w \<noteq> None"
  proof (intro allI impI)
    fix j assume "j < k0"
    with not_less_Least [of j "\<lambda>j. j < budget sub \<and> outcome (handler sub) it j w = None"] k0(1)
    show "outcome (handler sub) it j w \<noteq> None" by (simp add: k0_def)
  qed
  have "deliver c n it sub w = world_after (handler sub) it (Suc k0) w"
    by (rule deliver_success) (use k0 before in simp_all)
  with k0(1) show ?thesis by (intro exI [of _ "Suc k0"]) simp
qed



subsection \<open>Delivery to every subscription; the publisher sees no handler\<close>

lemma world_after_reports:
  "reports lg i h \<Longrightarrow> lg (world_after h it k w) = lg w @ replicate k i"
proof (induction k arbitrary: w)
  case 0
  then show ?case by simp
next
  case (Suc k)
  then show ?case by (simp add: reports_def replicate_app_Cons_same)
qed

lemma deliver_reports:
  assumes "reports lg i (handler sub)" and "silent lg (OnError c)"
  shows "\<exists>k. 1 \<le> k \<and> k \<le> budget sub \<and> lg (deliver c n it sub w) = lg w @ replicate k i"
proof -
  from deliver_attempts_once [of sub c n it w] obtain k where k: "1 \<le> k" "k \<le> budget sub"
    and d: "deliver c n it sub w = world_after (handler sub) it k w \<or>
        (\<exists>hook e. OnError c = Some hook \<and>
           deliver c n it sub w = hook (ctx it) n (event it) e (world_after (handler sub) it k w))"
    by blast
  from d assms(2) have "lg (deliver c n it sub w) = lg (world_after (handler sub) it k w)"
    by (auto simp: silent_def)
  with world_after_reports [OF assms(1)] k show ?thesis by auto
qed

lemma dispatch_snoc: "dispatch c n it (ss @ [s]) w = deliver c n it s (dispatch c n it ss w)"
  by (induction ss arbitrary: w) simp_all

lemma dispatch_reports:
  assumes "silent lg (OnError c)"
  shows "(\<forall>i<length ss. reports lg i (handler (ss ! i))) \<Longrightarrow>
         \<exists>ks. length ks = length ss \<and> (\<forall>i<length ss. 1 \<le> ks ! i \<and> ks ! i \<le> budget (ss ! i)) \<and>
              lg (dispatch c n it ss w) = lg w @ concat (map (\<lambda>i. replicate (ks ! i) i) [0..<length ss])"
proof (induction ss rule: rev_induct)
  case Nil
  then show ?case by simp
next
  case (snoc s ss)
  have "\<forall>i<length ss. reports lg i (handler (ss ! i))"
  proof (intro allI impI)
    fix i assume i: "i < length ss"
    with snoc.prems have "reports lg i (handler ((ss @ [s]) ! i))" by simp
    with i show "reports lg i (handler (ss ! i))" by (simp add: nth_append)
  qed
  from snoc.IH [OF this] obtain ks where ks: "length ks = length ss"
    "\<forall>i<length ss. 1 \<le> ks ! i \<and> ks ! i \<le> budget (ss ! i)"
    "lg (dispatch c n it ss w) = lg w @ concat (map (\<lambda>i. replicate (ks ! i) i) [0..<length ss])"
    by blast
  have "length ss < length (ss @ [s])" by simp
  with snoc.prems have "reports lg (length ss) (handler ((ss @ [s]) ! length ss))" by blast
  then have "reports lg (length ss) (handler s)" by simp
  from deliver_reports [OF this assms, where n = n and it = it and w = "dispatch c n it ss w"]
  obtain k where k: "1 \<le> k" "k \<le> budget s"
    "lg (deliver c n it s (dispatch c n it ss w)) = lg (dispatch c n it ss w) @ replicate k (length ss)"
    by blast
  have m: "map (\<lambda>i. replicate ((ks @ [k]) ! i) i) [0..<length ss] = map (\<lambda>i. replicate (ks ! i) i) [0..<length ss]"
    using ks(1) by (simp add: nth_append)
  show ?case
  proof (intro exI [of _ "ks @ [k]"] conjI allI impI)
    show "length (ks @ [k]) = length (ss @ [s])" using ks(1) by simp
  next
    fix i assume "i < length (ss @ [s])"
    then show "1 \<le> (ks @ [k]) ! i" using ks(1,2) k(1) by (cases "i = length ss") (auto simp: nth_append)
  next
    fix i assume "i < length (ss @ [s])"
    then show "(ks @ [k]) ! i \<le> budget ((ss @ [s]) ! i)"
      using ks(1,2) k(2) by (cases "i = length ss") (auto simp: nth_append)
  next
    show "lg (dispatch c n it (ss @ [s]) w) =
            lg w @ concat (map (\<lambda>i. replicate ((ks @ [k]) ! i) i) [0..<length (ss @ [s])])"
    proof -
      have last: "(ks @ [k]) ! length ss = k" using ks(1) by (simp add: nth_append)
      have "lg (dispatch c n it (ss @ [s]) w) =
              lg w @ concat (map (\<lambda>i. replicate (ks ! i) i) [0..<length ss]) @ replicate k (length ss)"
        using k(3) ks(3) by (simp add: dispatch_snoc)
      then show ?thesis by (simp add: m last)
    qed
  qed
qed


lemma map_update_entries:
  "map (\<lambda>(n, t). (n, f t)) (AList.update k v al) = AList.update k (f v) (map (\<lambda>(n, t). (n, f t)) al)"
  by (induction al) auto

lemma map_of_entries:
  "map_of (map (\<lambda>(n, t). (n, f t)) al) k = map_option f (map_of al k)"
  by (induction al) auto

lemma hand_off_strip: "map strip_goroutine (hand_off x gs) = hand_off x (map strip_goroutine gs)"
  by (induction x gs rule: hand_off.induct) simp_all

lemma Receiving_strip: "Receiving \<in> strip_goroutine ` set gs \<longleftrightarrow> Receiving \<in> set gs"
proof (induction gs)
  case Nil
  then show ?case by simp
next
  case (Cons g gs)
  then show ?case by (cases g) auto
qed

lemma shape_closed: "closed (shape b) = closed b"
  by (simp add: shape_def)

lemma can_send_strip: "can_send (strip_topic t) = can_send t"
  by (simp add: can_send_def strip_topic_def Receiving_strip)

lemma shape_update:
  "shape (b\<lparr>topics := AList.update n t (topics b)\<rparr>) =
   (shape b)\<lparr>topics := AList.update n (strip_topic t) (topics (shape b))\<rparr>"
  by (simp add: shape_def map_update_entries)

lemma ensureTopic_shape:
  "ensureTopic (shape b) n =
     (case ensureTopic b n of
        Panic \<Rightarrow> Panic
      | Ret None \<Rightarrow> Ret None
      | Ret (Some (t, b1)) \<Rightarrow> Ret (Some (strip_topic t, shape b1)))"
proof (cases "closed b")
  case True
  then show ?thesis by (simp add: ensureTopic_def shape_def)
next
  case False
  show ?thesis
  proof (cases "map_of (topics b) n")
    case (Some t)
    with False show ?thesis by (simp add: ensureTopic_def shape_def map_of_entries)
  next
    case None
    with False show ?thesis
      by (simp add: ensureTopic_def shape_def map_of_entries Let_def map_update_entries strip_topic_def)
  qed
qed

lemma select_send_strip:
  "select_send (strip_topic t) x cerr pick =
     (case select_send t x cerr pick of
        Buffered t1 \<Rightarrow> Buffered (strip_topic t1)
      | HandedOff t1 \<Rightarrow> HandedOff (strip_topic t1)
      | CtxDone e \<Rightarrow> CtxDone e
      | NoneReady \<Rightarrow> NoneReady
      | SendPanic \<Rightarrow> SendPanic)"
  by (simp add: select_send_def can_send_strip split: option.splits)
    (simp add: strip_topic_def hand_off_strip)

lemma apply_select_shape:
  "apply_select n x (shape b) (select_send (strip_topic t) x cerr pick) =
     (case apply_select n x b (select_send t x cerr pick) of (r, b1) \<Rightarrow> (r, shape b1))"
  by (cases "select_send t x cerr pick") (simp_all add: select_send_strip apply_select_def shape_update)

lemma publish_prepare_alt:
  "publish_prepare b h c0 n ev opts =
     (if closed b then (Ret (Inl ErrClosed), b, h)
      else (case (case foldl (\<lambda>(pc, h0) opt. opt pc h0) (\<lparr>Headers = None, Key = []\<rparr>, h) opts of
                    (pc, h1) \<Rightarrow>
                      if len_map h1 (Headers pc) > 0
                      then ContextWithHeaders (case c0 of None \<Rightarrow> Background | Some c \<Rightarrow> c) (Headers pc) h1
                      else (case c0 of None \<Rightarrow> Background | Some c \<Rightarrow> c, h1)) of
              (c1, h2) \<Rightarrow>
                (case ensureTopic b n of
                   Panic \<Rightarrow> (Panic, b, h2)
                 | Ret None \<Rightarrow> (Ret (Inl ErrClosed), b, h2)
                 | Ret (Some (t, b1)) \<Rightarrow> (Ret (Inr (\<lparr>ctx = c1, event = ev\<rparr>, t)), b1, h2))))"
  by (simp add: publish_prepare_def Let_def split: prod.splits)

lemma publish_prepare_shape:
  "publish_prepare (shape b) h c0 n ev opts =
     (case publish_prepare b h c0 n ev opts of
        (Panic, b1, h1) \<Rightarrow> (Panic, shape b1, h1)
      | (Ret (Inl e), b1, h1) \<Rightarrow> (Ret (Inl e), shape b1, h1)
      | (Ret (Inr (x, t)), b1, h1) \<Rightarrow> (Ret (Inr (x, strip_topic t)), shape b1, h1))"
proof (cases "closed b")
  case True
  then show ?thesis by (simp add: publish_prepare_def shape_closed)
next
  case False
  obtain c1 h2 where c:
    "(case foldl (\<lambda>(pc, h0) opt. opt pc h0) (\<lparr>Headers = None, Key = []\<rparr>, h) opts of
        (pc, h1) \<Rightarrow>
          if len_map h1 (Headers pc) > 0
          then ContextWithHeaders (case c0 of None \<Rightarrow> Background | Some c \<Rightarrow> c) (Headers pc) h1
          else (case c0 of None \<Rightarrow> Background | Some c \<Rightarrow> c, h1)) = (c1, h2)"
    by (cases "(case foldl (\<lambda>(pc, h0) opt. opt pc h0) (\<lparr>Headers = None, Key = []\<rparr>, h) opts of
        (pc, h1) \<Rightarrow>
          if len_map h1 (Headers pc) > 0
          then ContextWithHeaders (case c0 of None \<Rightarrow> Background | Some c \<Rightarrow> c) (Headers pc) h1
          else (case c0 of None \<Rightarrow> Background | Some c \<Rightarrow> c, h1))")
  show ?thesis
  proof (cases "ensureTopic b n")
    case Panic
    with False show ?thesis by (simp add: publish_prepare_alt c shape_closed ensureTopic_shape)
  next
    case (Ret o1)
    with False show ?thesis
      by (cases o1) (auto simp: publish_prepare_alt c shape_closed ensureTopic_shape)
  qed
qed

lemma Publish_shape:
  "Publish (shape b) h en c0 n ev opts pick =
     (case Publish b h en c0 n ev opts pick of (r, b1, h1) \<Rightarrow> (r, shape b1, h1))"
  by (simp add: Publish_def publish_prepare_shape apply_select_shape
      split: prod.splits res.splits sum.splits)


lemma Publish_error_kinds:
  assumes "Publish b h en c0 n ev opts pick = (Returned (Some e), b2, h2)"
  shows "e = ErrClosed \<or> ctx_Err en (case c0 of None \<Rightarrow> Background | Some c \<Rightarrow> c) = Some e"
proof (cases "closed b")
  case True
  with assms show ?thesis by (simp add: Publish_closed)
next
  case False
  show ?thesis
  proof (cases "ensureTopic b n")
    case Panic
    with False assms show ?thesis
      by (auto simp: Publish_def publish_prepare_alt split: prod.splits)
  next
    case (Ret o1)
    show ?thesis
    proof (cases o1)
      case None
      with Ret False assms show ?thesis
        by (auto simp: Publish_def publish_prepare_alt split: prod.splits)
    next
      case (Some tb)
      obtain t b1 where "tb = (t, b1)" by (cases tb)
      with Some Ret have et: "ensureTopic b n = Ret (Some (t, b1))" by simp
      from Publish_via_select [OF et, where h = h and ?c0.0 = c0 and ev = ev and opts = opts and en = en
          and pick = pick] assms
      show ?thesis
        by (auto simp: apply_select_def select_send_def split: selected.splits if_splits option.splits)
    qed
  qed
qed

text \<open>
  The steps of a worker inside the loop over its snapshot, taken one after the other,
  are the loop: they serve every subscription left and leave the world that \<open>dispatch\<close>
  computes.
\<close>

lemma worker_serves_snapshot:
  "map_of (topics (bus s)) n = Some t \<Longrightarrow> i < length (goroutines t) \<Longrightarrow>
   goroutines t ! i = Dispatching x ss \<Longrightarrow>
   \<exists>s1. run (replicate (length ss) (Work n i order)) s = Ret (replicate (length ss) (Handle n x), s1) \<and>
        wld s1 = dispatch (cfg (bus s)) n x ss (wld s)"
proof (induction ss arbitrary: s t)
  case Nil
  then show ?case by simp
next
  case (Cons sub rest)
  let ?t1 = "t\<lparr>goroutines := (goroutines t)[i := Dispatching x rest]\<rparr>"
  let ?s1 = "s\<lparr>bus := (bus s)\<lparr>topics := AList.update n ?t1 (topics (bus s))\<rparr>,
               wld := deliver (cfg (bus s)) n x sub (wld s)\<rparr>"
  have st: "step (Work n i order) s = Ret ([Handle n x], ?s1)"
    using Cons.prems by simp
  have "map_of (topics (bus ?s1)) n = Some ?t1" by (simp add: update_conv')
  moreover have "i < length (goroutines ?t1)" using Cons.prems(2) by simp
  moreover have "goroutines ?t1 ! i = Dispatching x rest" using Cons.prems(2) by simp
  ultimately obtain s2 where
    r: "run (replicate (length rest) (Work n i order)) ?s1 = Ret (replicate (length rest) (Handle n x), s2)"
    and w: "wld s2 = dispatch (cfg (bus ?s1)) n x rest (wld ?s1)"
    using Cons.IH [of ?s1 ?t1] by blast
  from st r w show ?case by simp
qed

text \<open>
  C6. Let every subscription of a snapshot report its invocations in a log, the
  subscription at position \<open>i\<close> by appending \<open>i\<close>, and let the hook leave the log alone.
  Then after the dispatch of an envelope the log has grown by a block of \<open>i\<close>'s for every
  position \<open>i\<close> of the snapshot, in the order of the snapshot, each block of at least one
  and at most \<open>budget\<close> entries: every handler of the snapshot has been invoked, whatever
  the handlers before it returned. And what \<^verbatim>\<open>Publish\<close> returns is the same on two buses
  that differ only in their handlers and hook; an error it returns is \<^verbatim>\<open>ErrClosed\<close> or the
  cancellation error of the supplied scope, never one that a handler made.
\<close>

theorem failures_stay_with_the_worker:
  assumes "\<forall>i<length ss. reports lg i (handler (ss ! i))"
    and "silent lg (OnError c)"
    and "(shape b :: ('e, unit) memoryBus) = shape b'"
  shows "(\<exists>ks. length ks = length ss \<and>
               (\<forall>i<length ss. 1 \<le> ks ! i \<and> ks ! i \<le> budget (ss ! i)) \<and>
               lg (dispatch c n it ss w) =
                 lg w @ concat (map (\<lambda>i. replicate (ks ! i) i) [0..<length ss])) \<and>
         fst (Publish b h en c0 m (ev :: 'e) opts pick) = fst (Publish b' h en c0 m ev opts pick) \<and>
         (\<forall>e. fst (Publish b h en c0 m ev opts pick) = Returned (Some e) \<longrightarrow>
              e = ErrClosed \<or> ctx_Err en (case c0 of None \<Rightarrow> Background | Some c \<Rightarrow> c) = Some e)"
proof (intro conjI allI impI)
  show "\<exists>ks. length ks = length ss \<and>
               (\<forall>i<length ss. 1 \<le> ks ! i \<and> ks ! i \<le> budget (ss ! i)) \<and>
               lg (dispatch c n it ss w) =
                 lg w @ concat (map (\<lambda>i. replicate (ks ! i) i) [0..<length ss])"
    by (rule dispatch_reports [OF assms(2,1)])
next
  have "fst (Publish b h en c0 m ev opts pick) =
        fst (Publish (shape b :: ('e, unit) memoryBus) h en c0 m ev opts pick)"
    by (simp add: Publish_shape split: prod.splits)
  also have "\<dots> = fst (Publish (shape b' :: ('e, unit) memoryBus) h en c0 m ev opts pick)"
    by (simp add: assms(3))
  also have "\<dots> = fst (Publish b' h en c0 m ev opts pick)"
    by (simp add: Publish_shape split: prod.splits)
  finally show "fst (Publish b h en c0 m ev opts pick) = fst (Publish b' h en c0 m ev opts pick)" .
next
  fix e assume "fst (Publish b h en c0 m ev opts pick) = Returned (Some e)"
  then obtain b2 h2 where "Publish b h en c0 m ev opts pick = (Returned (Some e), b2, h2)"
    by (cases "Publish b h en c0 m ev opts pick") auto
  then show "e = ErrClosed \<or> ctx_Err en (case c0 of None \<Rightarrow> Background | Some c \<Rightarrow> c) = Some e"
    by (rule Publish_error_kinds)
qed

text \<open>
  A snapshot of a handler that always fails (two attempts) and one that succeeds: the log
  is 0, 0, 1. \<^verbatim>\<open>Publish\<close> returns nil on the bus whose subscriber always fails as on the
  bus whose subscriber succeeds.
\<close>

theorem failures_stay_with_the_worker_witness:
  "user (dispatch \<lparr>BufferSize = 64, WorkersPerTopic = 1, OnError = None\<rparr> ''x''
           \<lparr>ctx = Background, event = AnyInt 1\<rparr>
           [\<lparr>handler = failing_logger 0, config = \<lparr>Retries = 2\<rparr>\<rparr>,
            \<lparr>handler = quiet_logger 1, config = \<lparr>Retries = 2\<rparr>\<rparr>]
           \<lparr>hp = [], user = []\<rparr>) = [0, 0, 1] \<and>
   fst (Publish (logger_bus (failing_logger 0)) [] (\<lambda>i. None) None ''x'' (AnyInt 1) [] True) = Returned None \<and>
   fst (Publish (logger_bus (quiet_logger 0)) [] (\<lambda>i. None) None ''x'' (AnyInt 1) [] True) = Returned None"
proof -
  let ?ss = "[\<lparr>handler = failing_logger 0, config = \<lparr>Retries = 2\<rparr>\<rparr>,
              \<lparr>handler = quiet_logger 1, config = \<lparr>Retries = 2\<rparr>\<rparr>]"
  let ?c = "\<lparr>BufferSize = 64, WorkersPerTopic = 1, OnError = None\<rparr> :: (any, nat list) BusConfig"
  have r: "\<forall>i<length ?ss. reports user i (handler (?ss ! i))"
    by (simp add: less_Suc_eq reports_def failing_logger_def quiet_logger_def)
  have q: "silent user (OnError ?c)" by (simp add: silent_def)
  have sh: "(shape (logger_bus (failing_logger 0)) :: (any, unit) memoryBus) = shape (logger_bus (quiet_logger 0))"
    by (simp add: shape_def logger_bus_def strip_topic_def strip_sub_def)
  have d: "user (dispatch ?c ''x'' \<lparr>ctx = Background, event = AnyInt 1\<rparr> ?ss \<lparr>hp = [], user = []\<rparr>) = [0, 0, 1]"
    by (simp add: deliver_def attempts.simps [of _ _ 2] failing_logger_def quiet_logger_def)
  show ?thesis
    using failures_stay_with_the_worker [OF r q sh, of "''x''" "\<lparr>ctx = Background, event = AnyInt 1\<rparr>"
        "\<lparr>hp = [], user = []\<rparr>" "[]" "\<lambda>i. None" None "''x''" "AnyInt 1" "[]" True] d
    by (simp add: Publish_def publish_prepare_def ensureTopic_def logger_bus_def select_send_def
        can_send_def apply_select_def len_map_def)
qed

subsection \<open>Headers\<close>











subsection \<open>One worker serves a topic in the order of the queue\<close>

lemma enqs_append: "enqs n (tr @ ls) = enqs n tr @ enqs n ls"
  by (induction n tr rule: enqs.induct) simp_all

lemma deqs_append: "deqs n (tr @ ls) = deqs n tr @ deqs n ls"
  by (induction n tr rule: deqs.induct) simp_all

lemma phases_append: "phases n po (tr @ ls) = phases n (phases n po tr) ls"
  by (induction tr arbitrary: po) simp_all

lemma other_topic_labels:
  "\<forall>l\<in>set ls. topic_of l \<noteq> n \<Longrightarrow> enqs n ls = [] \<and> deqs n ls = [] \<and> phases n po ls = po"
proof (induction ls arbitrary: po)
  case Nil
  then show ?case by simp
next
  case (Cons l ls)
  then show ?case by (cases l; cases po) auto
qed

lemma topic_inv_other_labels:
  "\<forall>l\<in>set ls. topic_of l \<noteq> n \<Longrightarrow> topic_inv n (tr @ ls) t = topic_inv n tr t"
  by (simp add: topic_inv_def enqs_append deqs_append phases_append other_topic_labels)

lemma fifo_inv_other_labels:
  "\<forall>l\<in>set ls. topic_of l \<noteq> n \<Longrightarrow> fifo_inv n (tr @ ls) b = fifo_inv n tr b"
  by (simp add: fifo_inv_def topic_inv_other_labels enqs_append deqs_append phases_append
      other_topic_labels split: option.splits)

lemma fifo_inv_other:
  "m \<noteq> n \<Longrightarrow> fifo_inv n tr (b\<lparr>topics := AList.update m t (topics b)\<rparr>) = fifo_inv n tr b"
  by (simp add: fifo_inv_def update_conv')

lemma fifo_inv_update:
  "WorkersPerTopic (cfg b) = 1 \<Longrightarrow> topic_inv n tr t \<Longrightarrow>
   fifo_inv n tr (b\<lparr>topics := AList.update n t (topics b)\<rparr>)"
  by (simp add: fifo_inv_def update_conv')

lemma fifo_invD:
  "fifo_inv n tr b \<Longrightarrow> map_of (topics b) n = Some t \<Longrightarrow> topic_inv n tr t"
  by (simp add: fifo_inv_def)

lemma fifo_inv_workers: "fifo_inv n tr b \<Longrightarrow> WorkersPerTopic (cfg b) = 1"
  by (simp add: fifo_inv_def)

lemma topic_inv_same_queue:
  "topic_inv n tr t \<Longrightarrow> ch t1 = ch t \<Longrightarrow> goroutines t1 = goroutines t \<Longrightarrow> topic_inv n tr t1"
  by (simp add: topic_inv_def)

lemma ensureTopic_fifo:
  assumes "fifo_inv n tr b" and "ensureTopic b m = Ret (Some (t, b1))"
  shows "fifo_inv n tr b1 \<and> map_of (topics b1) m = Some t"
proof (cases "map_of (topics b) m")
  case (Some t0)
  with assms show ?thesis by (auto simp: ensureTopic_def split: if_splits)
next
  case None
  with assms(2) have b1: "b1 = b\<lparr>topics := AList.update m t (topics b)\<rparr>"
    and t: "ch t = []" "goroutines t = replicate (nat (WorkersPerTopic (cfg b))) Receiving"
    by (auto simp: ensureTopic_def Let_def split: if_splits)
  show ?thesis
  proof (cases "m = n")
    case True
    with None assms(1) t have "topic_inv n tr t"
      by (simp add: fifo_inv_def topic_inv_def)
    with True b1 assms(1) show ?thesis by (simp add: fifo_inv_update fifo_inv_workers update_conv')
  next
    case False
    with b1 assms(1) show ?thesis by (simp add: fifo_inv_other update_conv')
  qed
qed


lemma select_labels_topic: "\<forall>l\<in>set (select_labels m x sel). topic_of l = m"
  by (cases sel) (simp_all add: select_labels_def)

lemma select_topic_inv:
  assumes "topic_inv n tr t"
  shows "select_send t x cerr pick = Buffered t1 \<Longrightarrow> topic_inv n (tr @ [Enq n x]) t1"
    and "select_send t x cerr pick = HandedOff t1 \<Longrightarrow> topic_inv n (tr @ [Enq n x, Deq n x]) t1"
proof -
  assume "select_send t x cerr pick = Buffered t1"
  then have "t1 = t\<lparr>ch := ch t @ [x]\<rparr>"
    by (auto simp: select_send_def split: if_splits option.splits)
  with assms show "topic_inv n (tr @ [Enq n x]) t1"
    by (auto simp: topic_inv_def enqs_append deqs_append phases_append)
next
  assume "select_send t x cerr pick = HandedOff t1"
  then have t1: "t1 = t\<lparr>goroutines := hand_off x (goroutines t)\<rparr>" and e: "ch t = []"
    and r: "Receiving \<in> set (goroutines t)"
    by (auto simp: select_send_def can_send_def split: if_splits option.splits)
  from assms obtain g where g: "goroutines t = [g]" by (auto simp: topic_inv_def)
  with r have "g = Receiving" by simp
  with g t1 e assms show "topic_inv n (tr @ [Enq n x, Deq n x]) t1"
    by (auto simp: topic_inv_def enqs_append deqs_append phases_append)
qed

lemma apply_select_fifo:
  assumes "fifo_inv n tr b" and "map_of (topics b) m = Some t"
    and "apply_select m x b (select_send t x cerr pick) = (r, b1)"
  shows "fifo_inv n (tr @ select_labels m x (select_send t x cerr pick)) b1"
proof (cases "m = n")
  case False
  then have "\<forall>l\<in>set (select_labels m x (select_send t x cerr pick)). topic_of l \<noteq> n"
    using select_labels_topic [of m x "select_send t x cerr pick"] by auto
  then have "fifo_inv n (tr @ select_labels m x (select_send t x cerr pick)) b1 = fifo_inv n tr b1"
    by (rule fifo_inv_other_labels)
  moreover have "fifo_inv n tr b1"
    using assms(1,3) False
    by (cases "select_send t x cerr pick") (auto simp: apply_select_def fifo_inv_other)
  ultimately show ?thesis by simp
next
  case True
  note ti = fifo_invD [OF assms(1) assms(2) [unfolded True]]
  note w = fifo_inv_workers [OF assms(1)]
  show ?thesis
  proof (cases "select_send t x cerr pick")
    case (Buffered t1)
    with assms(3) True have "b1 = b\<lparr>topics := AList.update n t1 (topics b)\<rparr>"
      by (simp add: apply_select_def)
    with fifo_inv_update [OF w select_topic_inv(1) [OF ti Buffered]] Buffered True
    show ?thesis by (simp add: select_labels_def)
  next
    case (HandedOff t1)
    with assms(3) True have "b1 = b\<lparr>topics := AList.update n t1 (topics b)\<rparr>"
      by (simp add: apply_select_def)
    with fifo_inv_update [OF w select_topic_inv(2) [OF ti HandedOff]] HandedOff True
    show ?thesis by (simp add: select_labels_def)
  next
    case (CtxDone e)
    with assms show ?thesis by (simp add: apply_select_def select_labels_def)
  next
    case NoneReady
    with assms show ?thesis by (simp add: apply_select_def select_labels_def)
  next
    case SendPanic
    with assms show ?thesis by (simp add: apply_select_def select_labels_def)
  qed
qed

lemma Subscribe_fifo:
  assumes "fifo_inv n tr b" and "Subscribe b m hdl opts = (r, b1)"
  shows "fifo_inv n tr b1"
proof (cases hdl)
  case None
  with assms show ?thesis by (simp add: Subscribe_def)
next
  case (Some h)
  show ?thesis
  proof (cases "closed b")
    case True
    with Some assms show ?thesis by (simp add: Subscribe_def)
  next
    case False
    show ?thesis
    proof (cases "ensureTopic b m")
      case Panic
      with Some False assms show ?thesis by (simp add: Subscribe_def)
    next
      case (Ret o1)
      show ?thesis
      proof (cases o1)
        case None
        with Ret Some False assms show ?thesis by (simp add: Subscribe_def)
      next
        case (Some tb)
        obtain t b0 where tb: "tb = (t, b0)" by (cases tb)
        with Some Ret have et: "ensureTopic b m = Ret (Some (t, b0))" by simp
        note e = ensureTopic_fifo [OF assms(1) et]
        from assms(2) \<open>hdl = Some h\<close> False et obtain t1 where
          b1: "b1 = b0\<lparr>topics := AList.update m t1 (topics b0)\<rparr>"
          and t1: "ch t1 = ch t" "goroutines t1 = goroutines t"
          by (auto simp: Subscribe_def Let_def)
        show ?thesis
        proof (cases "m = n")
          case True
          from e True have "topic_inv n tr t" by (auto dest: fifo_invD)
          from topic_inv_same_queue [OF this t1] e True b1 show ?thesis
            by (auto intro!: fifo_inv_update dest: fifo_inv_workers)
        next
          case False
          with e b1 show ?thesis by (simp add: fifo_inv_other)
        qed
      qed
    qed
  qed
qed

lemma Unsubscribe_fifo:
  assumes "fifo_inv n tr b"
  shows "fifo_inv n tr (Unsubscribe m b)"
proof (cases "map_of (topics b) (sub_topic m)")
  case None
  with assms show ?thesis by (simp add: Unsubscribe_def)
next
  case (Some t)
  show ?thesis
  proof (cases "sub_topic m = n")
    case True
    from fifo_invD [OF assms] Some True have "topic_inv n tr t" by simp
    then have "topic_inv n tr (t\<lparr>subs := AList.delete (sub_id m) (subs t)\<rparr>)"
      by (rule topic_inv_same_queue) simp_all
    with Some True assms show ?thesis
      by (auto simp: Unsubscribe_def intro!: fifo_inv_update dest: fifo_inv_workers)
  next
    case False
    with Some assms show ?thesis by (simp add: Unsubscribe_def fifo_inv_other)
  qed
qed

lemma Close_fifo:
  assumes "fifo_inv n tr b" and "Close b = Ret b1"
  shows "fifo_inv n tr b1"
proof (cases "closed b")
  case True
  with assms show ?thesis by (simp add: Close_def)
next
  case False
  with assms(2) have b1: "b1 = b\<lparr>closed := True, topics := map (\<lambda>(n, t). (n, t\<lparr>ch_closed := True\<rparr>)) (topics b)\<rparr>"
    by (simp add: Close_def split: if_splits)
  show ?thesis
  proof (cases "map_of (topics b) n")
    case None
    with assms(1) b1 show ?thesis by (simp add: fifo_inv_def map_of_entries)
  next
    case (Some t)
    from fifo_invD [OF assms(1) Some] have "topic_inv n tr (t\<lparr>ch_closed := True\<rparr>)"
      by (rule topic_inv_same_queue) simp_all
    with Some assms(1) b1 show ?thesis by (simp add: fifo_inv_def map_of_entries)
  qed
qed


lemma publish_prepare_error_bus:
  "publish_prepare b h c0 m ev opts = (Panic, b1, h1) \<Longrightarrow> b1 = b"
  "publish_prepare b h c0 m ev opts = (Ret (Inl e), b1, h1) \<Longrightarrow> b1 = b"
  by (auto simp: publish_prepare_alt split: if_splits prod.splits res.splits option.splits)

lemma Publish_fifo:
  assumes "fifo_inv n tr b" and "Publish b h en c0 m ev opts pick = (r, b2, h2)"
  shows "fifo_inv n (tr @ publish_labels b h en c0 m ev opts pick) b2"
proof (cases "publish_prepare b h c0 m ev opts")
  case (fields p b1 h1)
  show ?thesis
  proof (cases p)
    case Panic
    with fields publish_prepare_error_bus(1) [of b h c0 m ev opts b1 h1] assms show ?thesis
      by (simp add: Publish_def publish_labels_def)
  next
    case (Ret e)
    show ?thesis
    proof (cases e)
      case (Inl err)
      with Ret fields publish_prepare_error_bus(2) [of b h c0 m ev opts err b1 h1] assms show ?thesis
        by (simp add: Publish_def publish_labels_def)
    next
      case (Inr xt)
      obtain x t where xt: "xt = (x, t)" by (cases xt)
      with Inr Ret fields have pp: "publish_prepare b h c0 m ev opts = (Ret (Inr (x, t)), b1, h1)" by simp
      from publish_prepare_item [OF pp, of en] have et: "ensureTopic b m = Ret (Some (t, b1))" by simp
      note e = ensureTopic_fifo [OF assms(1) et]
      obtain r' b' where ap: "apply_select m x b1 (select_send t x (ctx_Err en (ctx x)) pick) = (r', b')"
        by (cases "apply_select m x b1 (select_send t x (ctx_Err en (ctx x)) pick)")
      from apply_select_fifo [OF conjunct1 [OF e] conjunct2 [OF e] ap]
      have "fifo_inv n (tr @ select_labels m x (select_send t x (ctx_Err en (ctx x)) pick)) b'" .
      with pp ap assms(2) show ?thesis by (simp add: Publish_def publish_labels_def)
    qed
  qed
qed

lemma worker_step_labels:
  "worker_step c m order t g w = (ls, t1, g1, w1) \<Longrightarrow> \<forall>l\<in>set ls. topic_of l = m"
  by (cases "(c, m, order, t, g, w)" rule: worker_step.cases) (auto split: list.splits if_splits)

lemma worker_step_topic_inv:
  assumes "topic_inv n tr t" and "goroutines t = [g]"
    and "worker_step c n order t g w = (ls, t1, g1, w1)"
  shows "topic_inv n (tr @ ls) (t1\<lparr>goroutines := (goroutines t1)[0 := g1]\<rparr>)"
proof (cases g)
  case Receiving
  show ?thesis
  proof (cases "ch t")
    case Nil
    with Receiving assms show ?thesis by (auto simp: topic_inv_def split: if_splits)
  next
    case (Cons x q)
    with Receiving assms show ?thesis
      by (auto simp: topic_inv_def enqs_append deqs_append phases_append)
  qed
next
  case (Snapshotting x)
  with assms show ?thesis by (auto simp: topic_inv_def enqs_append deqs_append phases_append)
next
  case (Dispatching x ss)
  with assms show ?thesis
    by (cases ss) (auto simp: topic_inv_def enqs_append deqs_append phases_append serving_def)
next
  case Exited
  with assms show ?thesis by (auto simp: topic_inv_def)
qed

lemma step_fifo:
  assumes "fifo_inv n tr (bus s)" and "step a s = Ret (ls, s1)"
  shows "fifo_inv n (tr @ ls) (bus s1)"
proof (cases a)
  case (CallSubscribe m hdl opts)
  with assms show ?thesis by (auto split: prod.splits res.splits dest: Subscribe_fifo)
next
  case (CallUnsubscribe m)
  with assms show ?thesis by (auto simp: Unsubscribe_fifo)
next
  case (CallPublish c0 m ev opts pick)
  obtain r b2 h2 where P: "Publish (bus s) (hp (wld s)) (scopes s) c0 m ev opts pick = (r, b2, h2)"
    by (cases "Publish (bus s) (hp (wld s)) (scopes s) c0 m ev opts pick")
  note f = Publish_fifo [OF assms(1) P]
  show ?thesis
  proof (cases r)
    case (Returned e)
    with CallPublish P assms(2) f show ?thesis by auto
  next
    case (Blocked k x)
    have "publish_labels (bus s) (hp (wld s)) (scopes s) c0 m ev opts pick = []"
      using P Blocked
      by (auto simp: publish_labels_def Publish_def apply_select_def select_labels_def
          split: prod.splits res.splits sum.splits selected.splits)
    with Blocked CallPublish P assms(2) f show ?thesis by auto
  next
    case Panicked
    with CallPublish P assms(2) show ?thesis by simp
  qed
next
  case (Retry k pick)
  show ?thesis
  proof (cases "k < length (waiting s)")
    case False
    with Retry assms show ?thesis by simp
  next
    case True
    obtain m x where w: "waiting s ! k = (m, x)" by (cases "waiting s ! k")
    show ?thesis
    proof (cases "map_of (topics (bus s)) m")
      case None
      with Retry True w assms show ?thesis by simp
    next
      case (Some t)
      obtain r b1 where ap: "apply_select m x (bus s) (select_send t x (ctx_Err (scopes s) (ctx x)) pick) = (r, b1)"
        by (cases "apply_select m x (bus s) (select_send t x (ctx_Err (scopes s) (ctx x)) pick)")
      note f = apply_select_fifo [OF assms(1) Some ap]
      show ?thesis
      proof (cases r)
        case (Returned e)
        with Retry True w Some ap assms(2) f show ?thesis by (auto simp: Let_def)
      next
        case (Blocked k' x')
        with Retry True w Some ap assms show ?thesis by (auto simp: Let_def)
      next
        case Panicked
        with Retry True w Some ap assms(2) show ?thesis by (simp add: Let_def)
      qed
    qed
  qed
next
  case CallClose
  with assms show ?thesis by (auto split: res.splits dest: Close_fifo)
next
  case (Work m i order)
  show ?thesis
  proof (cases "map_of (topics (bus s)) m")
    case None
    with Work assms show ?thesis by simp
  next
    case (Some t)
    show ?thesis
    proof (cases "i < length (goroutines t)")
      case False
      with Work Some assms show ?thesis by simp
    next
      case True
      obtain ls' t1 g1 w1 where ws:
        "worker_step (cfg (bus s)) m order t (goroutines t ! i) (wld s) = (ls', t1, g1, w1)"
        by (cases "worker_step (cfg (bus s)) m order t (goroutines t ! i) (wld s)")
      with Work Some True assms(2) have ls: "ls = ls'"
        and s1: "bus s1 = (bus s)\<lparr>topics := AList.update m (t1\<lparr>goroutines := (goroutines t1)[i := g1]\<rparr>)
                                    (topics (bus s))\<rparr>"
        by auto
      show ?thesis
      proof (cases "m = n")
        case False
        with worker_step_labels [OF ws] ls have "\<forall>l\<in>set ls. topic_of l \<noteq> n" by auto
        from fifo_inv_other_labels [OF this, of tr "bus s1"] False s1 assms(1) show ?thesis
          by (simp add: fifo_inv_other)
      next
        case mn: True
        from fifo_invD [OF assms(1)] Some mn have ti: "topic_inv n tr t" by simp
        then obtain g where g: "goroutines t = [g]" by (auto simp: topic_inv_def)
        with True have i: "i = 0" by simp
        from worker_step_topic_inv [OF ti g] ws mn g i ls
        have "topic_inv n (tr @ ls) (t1\<lparr>goroutines := (goroutines t1)[i := g1]\<rparr>)" by simp
        from fifo_inv_update [OF fifo_inv_workers [OF assms(1)] this] s1 mn show ?thesis by simp
      qed
    qed
  qed
next
  case (Expire i e)
  with assms show ?thesis by auto
qed

lemma run_fifo:
  "fifo_inv n tr0 (bus s) \<Longrightarrow> run acts s = Ret (tr, s1) \<Longrightarrow> fifo_inv n (tr0 @ tr) (bus s1)"
proof (induction acts arbitrary: s tr tr0)
  case Nil
  then show ?case by simp
next
  case (Cons a acts)
  from Cons.prems(2) obtain ls s2 tr2 where st: "step a s = Ret (ls, s2)"
    and r: "run acts s2 = Ret (tr2, s1)" and tr: "tr = ls @ tr2"
    by (auto split: res.splits prod.splits)
  from Cons.IH [OF step_fifo [OF Cons.prems(1) st] r] tr show ?case by simp
qed

lemma fifo_inv_prefix: "fifo_inv n tr b \<Longrightarrow> prefix (deqs n tr) (enqs n tr) \<and> one_at_a_time n tr"
  by (auto simp: fifo_inv_def topic_inv_def one_at_a_time_def split: option.splits)

text \<open>
  C2. On a bus made with one worker per topic, in every run of the program, whatever
  the schedule, and for every topic \<open>n\<close>: the envelopes the worker has received are, in
  order, the first of the envelopes the channel has accepted (the queue is first in,
  first out); and the worker serves them one at a time: after receiving an envelope it
  takes its snapshot, serves each subscription of the snapshot for that envelope, and
  receives the next envelope only then. The channel accepts an envelope within the call
  of \<^verbatim>\<open>Publish\<close> that carries it, so of two calls of which the first has returned before
  the second begins, the first's envelope is accepted first, received first, and served
  to the end before the second's is received.
\<close>

theorem single_worker_fifo:
  assumes "WorkersPerTopic (cfg (bus s0)) = 1" and "topics (bus s0) = []"
    and "run acts s0 = Ret (tr, s)"
  shows "prefix (deqs n tr) (enqs n tr) \<and> one_at_a_time n tr"
proof -
  have "fifo_inv n [] (bus s0)" using assms(1,2) by (simp add: fifo_inv_def)
  from run_fifo [OF this assms(3)] show ?thesis by (simp add: fifo_inv_prefix)
qed

text \<open>
  The scenario of the package's test: buffer 16, one worker, a subscriber that adds the
  integers it is given; 3 is published, then 4; the worker serves 3, then 4, and the sum
  is 7.
\<close>

lemma sum_run:
  "\<exists>s. run sum_schedule sum_start = Ret (sum_trace, s) \<and> user (wld s) = (7, [])"
  by (simp add: sum_schedule_def sum_start_def sum_trace_def NewMemoryBus_def WithBuffer_def
      WithWorkers_def Subscribe_def ensureTopic_def Let_def Publish_def publish_prepare_def
      publish_labels_def select_labels_def select_send_def can_send_def apply_select_def
      len_map_def snapshot_def deliver_def attempts.simps [of _ _ 1] AsHandler_def add_int_def)

theorem single_worker_fifo_witness:
  "(case run sum_schedule sum_start of
      Ret (tr, s) \<Rightarrow> tr = sum_trace \<and> user (wld s) = (7, [])
    | Panic \<Rightarrow> False) \<and>
   prefix (deqs ''topic'' sum_trace) (enqs ''topic'' sum_trace) \<and> one_at_a_time ''topic'' sum_trace"
proof -
  from sum_run obtain s where r: "run sum_schedule sum_start = Ret (sum_trace, s)"
    and u: "user (wld s) = (7, [])" by blast
  have w: "WorkersPerTopic (cfg (bus sum_start)) = 1"
    by (simp add: sum_start_def NewMemoryBus_def WithBuffer_def WithWorkers_def)
  have e: "topics (bus sum_start) = []" by (simp add: sum_start_def NewMemoryBus_def)
  from single_worker_fifo [OF w e r, of "''topic''"] r u show ?thesis by simp
qed

end
